theory Spec2Isabelle
  imports Main "HOL-Library.Word"
begin

unbundle bit_operations_syntax

section \<open>Faults and console output\<close>

text \<open>
  The C++ operations of the entity-component-system runtime are embedded as functions
  on an explicit registry state. Whatever the source leaves to the language is a value:
  \<^item> \<open>UndefinedBehaviour\<close>: an index outside a \<open>std::vector\<close>, erasing or dereferencing
    the \<open>end()\<close> iterator of a container, an \<open>int\<close> expression whose value is beyond
    \<open>INT_MAX\<close>;
  \<^item> \<open>OutOfRange\<close>: the \<open>std::out_of_range\<close> that \<open>std::bitset::set\<close> and
    \<open>std::bitset::test\<close> throw for a position beyond the bitset;
  \<^item> \<open>LengthError\<close>: the \<open>std::length_error\<close> of \<open>std::vector::resize\<close> for a size beyond
    \<open>max_size()\<close>, which is what a negative \<open>int\<close> converted to \<open>size_t\<close> is;
  \<^item> \<open>NonTermination\<close>: a call that does not return.
  Memory exhaustion is not modelled. An \<open>int\<close> of the source is an \<open>int\<close> here, of 32 bits:
  where the source computes \<open>numEntity++\<close> or \<open>entityId + 100\<close>, the model checks the result
  against \<open>INT_MAX\<close> and gives \<open>UndefinedBehaviour\<close> beyond it.
\<close>

datatype fault = UndefinedBehaviour | OutOfRange | LengthError | NonTermination

definition INT_MAX :: int where
  "INT_MAX = 2147483647"

text \<open>
  What the registry writes to \<open>std::cout\<close> and \<open>std::cerr\<close>: \<open>Cerr s n\<close> is the
  line \<open>s\<close> followed by the number \<open>n\<close>.
\<close>

datatype console_line = Cout string | Cerr string int

section \<open>Utils/Pool.hpp\<close>

text \<open>\<open>std::vector::resize(n)\<close>: the first \<open>n\<close> elements are kept, new ones are value-initialised.\<close>

definition vector_resize :: "nat \<Rightarrow> 'a \<Rightarrow> 'a list \<Rightarrow> 'a list" where
  "vector_resize n d xs = take n xs @ replicate (n - length xs) d"

text \<open>
  A \<open>Pool<TComponent>\<close> is its \<open>data\<close> vector; \<open>d\<close> is the value-initialised
  \<open>TComponent\<close>. The \<open>int\<close> argument of \<open>Resize\<close> is converted to \<open>size_t\<close>.
\<close>

type_synonym 'c Pool = "'c list"

definition Pool_Resize :: "'c \<Rightarrow> int \<Rightarrow> 'c Pool \<Rightarrow> fault + 'c Pool" where
  "Pool_Resize d n data =
     (if n < 0 then Inl LengthError else Inr (vector_resize (nat n) d data))"

definition Pool_new :: "'c \<Rightarrow> int \<Rightarrow> fault + 'c Pool" where
  "Pool_new d n = Pool_Resize d n []"

definition Pool_GetSize :: "'c Pool \<Rightarrow> int" where
  "Pool_GetSize data = int (length data)"

text \<open>\<open>Set\<close> and \<open>Get\<close> take an \<open>unsigned int\<close> index and use \<open>operator[]\<close> unchecked.\<close>

definition Pool_Set :: "nat \<Rightarrow> 'c \<Rightarrow> 'c Pool \<Rightarrow> fault + 'c Pool" where
  "Pool_Set index object data =
     (if index < length data then Inr (data[index := object]) else Inl UndefinedBehaviour)"

definition Pool_Get :: "nat \<Rightarrow> 'c Pool \<Rightarrow> fault + 'c" where
  "Pool_Get index data =
     (if index < length data then Inr (data ! index) else Inl UndefinedBehaviour)"

text \<open>The conversion of an \<open>int\<close> argument to \<open>unsigned int\<close>.\<close>

definition to_unsigned :: "int \<Rightarrow> nat" where
  "to_unsigned i = nat (i mod 2 ^ 32)"

section \<open>ECS/ECS.hpp: signatures, entities, systems\<close>

text \<open>\<open>typedef std::bitset<MAX_COMPONENTS> Signature\<close> with \<open>MAX_COMPONENTS = 64\<close>.\<close>

type_synonym Signature = "64 word"

definition MAX_COMPONENTS :: nat where
  "MAX_COMPONENTS = 64"

definition bitset_set :: "nat \<Rightarrow> bool \<Rightarrow> Signature \<Rightarrow> fault + Signature" where
  "bitset_set pos val sig =
     (if MAX_COMPONENTS \<le> pos then Inl OutOfRange
      else Inr (if val then set_bit pos sig else unset_bit pos sig))"

definition bitset_test :: "nat \<Rightarrow> Signature \<Rightarrow> fault + bool" where
  "bitset_test pos sig = (if MAX_COMPONENTS \<le> pos then Inl OutOfRange else Inr (bit sig pos))"

text \<open>
  An \<open>Entity\<close> is compared by its id alone (\<open>operator==\<close>, \<open>operator<\<close>), and its
  \<open>registry\<close> pointer is the registry that is passed explicitly here: an entity is its id.
\<close>

type_synonym entity = int

record System =
  componentSignature :: Signature
  entities :: "entity list"

definition AddEntityToSystem :: "entity \<Rightarrow> System \<Rightarrow> System" where
  "AddEntityToSystem entity s = s\<lparr>entities := entities s @ [entity]\<rparr>"

definition RemoveEntityFromSystem :: "entity \<Rightarrow> System \<Rightarrow> System" where
  "RemoveEntityFromSystem entity s =
     s\<lparr>entities := filter (\<lambda>other. \<not> (entity = other)) (entities s)\<rparr>"

definition GetSystemEntities :: "System \<Rightarrow> entity list" where
  "GetSystemEntities s = entities s"

definition GetComponentSignature :: "System \<Rightarrow> Signature" where
  "GetComponentSignature s = componentSignature s"

definition RequireComponent :: "nat \<Rightarrow> System \<Rightarrow> fault + System" where
  "RequireComponent componentId s =
     (case bitset_set componentId True (componentSignature s) of
        Inl f \<Rightarrow> Inl f
      | Inr sig \<Rightarrow> Inr (s\<lparr>componentSignature := sig\<rparr>))"

section \<open>ECS: the registry\<close>

text \<open>
  A \<open>std::set\<close> of ids is the ascending list of its elements, a \<open>std::deque\<close> a list with
  its front at the head. The \<open>std::unordered_map\<close> of systems is an association list from
  the name of the system type (its \<open>std::type_index\<close>) to the system; every loop over it
  treats each system on its own, so the order of the list is immaterial.
\<close>

definition set_insert :: "int \<Rightarrow> int list \<Rightarrow> int list" where
  "set_insert x xs = (if x \<in> set xs then xs else insort x xs)"

definition set_erase :: "int \<Rightarrow> int list \<Rightarrow> int list" where
  "set_erase x xs = removeAll x xs"

type_synonym type_index = string

record 'c Registry =
  numEntity :: int
  componentsPools :: "'c Pool option list"
  entityComponentSignatures :: "Signature list"
  systems :: "(type_index \<times> System) list"
  entitiesToBeAdded :: "entity list"
  entitiesToBeKilled :: "entity list"
  freeIds :: "int list"
  activeEntityIds :: "int list"
  console :: "console_line list"

definition Registry_new :: "'c Registry" where
  "Registry_new =
     \<lparr>numEntity = 0, componentsPools = [], entityComponentSignatures = [], systems = [],
      entitiesToBeAdded = [], entitiesToBeKilled = [], freeIds = [], activeEntityIds = [],
      console = [Cout ''[Registry] Constructor is executed'']\<rparr>"

text \<open>\<open>entityComponentSignatures[entityId]\<close>: the index is converted to \<open>size_t\<close>.\<close>

definition in_signatures :: "int \<Rightarrow> 'c Registry \<Rightarrow> bool" where
  "in_signatures entityId r \<longleftrightarrow> 0 \<le> entityId \<and> nat entityId < length (entityComponentSignatures r)"

subsection \<open>CreateEntity\<close>

text \<open>
  The source picks an id twice with the same statements, before its \<open>while\<close> loop and in
  the loop's body: from the counter when the free queue is empty (growing the signature
  table), from the front of the queue otherwise. \<open>numEntity++\<close> overflows at \<open>INT_MAX\<close>.
  \<open>static_cast<size_t>(entityId) >= size()\<close> holds for every negative \<open>entityId\<close>;
  \<open>entityId + 100\<close> is an \<open>int\<close>, which overflows beyond \<open>INT_MAX\<close> and, when it is
  negative, is a size beyond \<open>max_size()\<close>.
\<close>

definition pick_id :: "'c Registry \<Rightarrow> fault + int \<times> 'c Registry" where
  "pick_id r =
     (if freeIds r = [] then
        (let entityId = numEntity r in
         if entityId = INT_MAX then Inl UndefinedBehaviour
         else
           (let r1 = r\<lparr>numEntity := entityId + 1\<rparr> in
            if entityId < 0 \<or> int (length (entityComponentSignatures r1)) \<le> entityId then
              (if INT_MAX < entityId + 100 then Inl UndefinedBehaviour
               else if entityId + 100 < 0 then Inl LengthError
               else Inr (entityId,
                      r1\<lparr>entityComponentSignatures :=
                           vector_resize (nat (entityId + 100)) 0 (entityComponentSignatures r1)\<rparr>))
            else Inr (entityId, r1)))
      else Inr (hd (freeIds r), r\<lparr>freeIds := tl (freeIds r)\<rparr>))"

text \<open>The loop \<open>while (activeEntityIds.find(entityId) != activeEntityIds.end())\<close>.\<close>

partial_function (option) skip_active ::
  "int \<Rightarrow> 'c Registry \<Rightarrow> (fault + int \<times> 'c Registry) option"
  where
  "skip_active entityId r =
     (if entityId \<in> set (activeEntityIds r)
      then (case pick_id r of
              Inl f \<Rightarrow> Some (Inl f)
            | Inr (entityId', r') \<Rightarrow> skip_active entityId' r')
      else Some (Inr (entityId, r)))"

text \<open>
  The two branches after the loop: the entity is staged for the systems and its id marked
  active, or, when it is staged to be killed, a line goes to \<open>std::cerr\<close> and
  \<open>CreateEntity\<close> calls itself.
\<close>

definition mark_active :: "int \<Rightarrow> 'c Registry \<Rightarrow> 'c Registry" where
  "mark_active entityId r =
     r\<lparr>entitiesToBeAdded := set_insert entityId (entitiesToBeAdded r),
       activeEntityIds := set_insert entityId (activeEntityIds r)\<rparr>"

definition retry_message :: "int \<Rightarrow> console_line" where
  "retry_message entityId =
     Cerr ''[Registry] Attempted to reuse entity ID that was marked for killing: '' entityId"

partial_function (option) CreateEntity ::
  "'c Registry \<Rightarrow> (fault + entity \<times> 'c Registry) option"
  where
  "CreateEntity r =
     (case pick_id r of
        Inl f \<Rightarrow> Some (Inl f)
      | Inr (entityId0, r0) \<Rightarrow>
          Option.bind (skip_active entityId0 r0) (\<lambda>found.
            case found of
              Inl f \<Rightarrow> Some (Inl f)
            | Inr (entityId, r1) \<Rightarrow>
                if entityId \<notin> set (entitiesToBeKilled r1)
                then Some (Inr (entityId, mark_active entityId r1))
                else CreateEntity (r1\<lparr>console := console r1 @ [retry_message entityId]\<rparr>)))"

declare skip_active.simps [code] CreateEntity.simps [code]

subsection \<open>Systems and signatures of an entity\<close>

definition RemoveEntityFromSystems :: "entity \<Rightarrow> 'c Registry \<Rightarrow> 'c Registry" where
  "RemoveEntityFromSystems entity r =
     r\<lparr>systems := map (\<lambda>(t, s). (t, RemoveEntityFromSystem entity s)) (systems r)\<rparr>"

definition isInterested :: "Signature \<Rightarrow> Signature \<Rightarrow> bool" where
  "isInterested entityComponentSignature systemComponentSignature \<longleftrightarrow>
     (entityComponentSignature AND systemComponentSignature) = systemComponentSignature"

definition AddEntityToSystems :: "entity \<Rightarrow> 'c Registry \<Rightarrow> fault + 'c Registry" where
  "AddEntityToSystems entity r =
     (if in_signatures entity r then
        (let entityComponentSignature = entityComponentSignatures r ! nat entity
         in Inr (r\<lparr>systems := map (\<lambda>(t, s).
               (t, if isInterested entityComponentSignature (GetComponentSignature s)
                   then AddEntityToSystem entity s else s)) (systems r)\<rparr>))
      else Inl UndefinedBehaviour)"

text \<open>\<open>entityComponentSignatures[entityId].reset()\<close>.\<close>

definition reset_signature :: "int \<Rightarrow> 'c Registry \<Rightarrow> fault + 'c Registry" where
  "reset_signature entityId r =
     (if in_signatures entityId r
      then Inr (r\<lparr>entityComponentSignatures := (entityComponentSignatures r)[nat entityId := 0]\<rparr>)
      else Inl UndefinedBehaviour)"

subsection \<open>KillEntity, Update, ClearAllEntities\<close>

definition kill_message :: "int \<Rightarrow> console_line" where
  "kill_message entityId = Cerr ''[ERROR] Attempting to kill non-existent entity: '' entityId"

definition KillEntity :: "entity \<Rightarrow> 'c Registry \<Rightarrow> fault + 'c Registry" where
  "KillEntity entity r =
     (let entityId = entity in
      if entityId \<notin> set (activeEntityIds r)
      then Inr (r\<lparr>console := console r @ [kill_message entityId]\<rparr>)
      else (case reset_signature entityId (RemoveEntityFromSystems entity r) of
              Inl f \<Rightarrow> Inl f
            | Inr r2 \<Rightarrow>
                Inr (r2\<lparr>entitiesToBeKilled := set_insert entity (entitiesToBeKilled r2)\<rparr>)))"

text \<open>A range-based \<open>for\<close> whose body may fault: the first fault ends the loop.\<close>

primrec for_each :: "('a \<Rightarrow> 's \<Rightarrow> fault + 's) \<Rightarrow> 'a list \<Rightarrow> 's \<Rightarrow> fault + 's" where
  "for_each body [] s = Inr s"
| "for_each body (x # xs) s =
     (case body x s of Inl f \<Rightarrow> Inl f | Inr s' \<Rightarrow> for_each body xs s')"

definition free_killed :: "entity \<Rightarrow> 'c Registry \<Rightarrow> fault + 'c Registry" where
  "free_killed entity r =
     (let entityId = entity in
      case reset_signature entityId (RemoveEntityFromSystems entity r) of
        Inl f \<Rightarrow> Inl f
      | Inr r2 \<Rightarrow>
          Inr (r2\<lparr>activeEntityIds := set_erase entityId (activeEntityIds r2),
                 freeIds := freeIds r2 @ [entityId]\<rparr>))"

definition Update :: "'c Registry \<Rightarrow> fault + 'c Registry" where
  "Update r =
     (case for_each AddEntityToSystems (entitiesToBeAdded r) r of
        Inl f \<Rightarrow> Inl f
      | Inr r1 \<Rightarrow>
          (case for_each free_killed (entitiesToBeKilled r1) (r1\<lparr>entitiesToBeAdded := []\<rparr>) of
             Inl f \<Rightarrow> Inl f
           | Inr r2 \<Rightarrow> Inr (r2\<lparr>entitiesToBeKilled := []\<rparr>)))"

definition free_active :: "int \<Rightarrow> 'c Registry \<Rightarrow> fault + 'c Registry" where
  "free_active entityId r =
     (case reset_signature entityId (RemoveEntityFromSystems entityId r) of
        Inl f \<Rightarrow> Inl f
      | Inr r2 \<Rightarrow> Inr (r2\<lparr>freeIds := freeIds r2 @ [entityId]\<rparr>))"

definition ClearAllEntities :: "'c Registry \<Rightarrow> fault + 'c Registry" where
  "ClearAllEntities r =
     (case for_each free_active (activeEntityIds r)
             (r\<lparr>console := console r @ [Cout ''[REGISTRY] Now Freeing All ID'']\<rparr>) of
        Inl f \<Rightarrow> Inl f
      | Inr r1 \<Rightarrow> Inr (r1\<lparr>activeEntityIds := []\<rparr>))"

subsection \<open>Components\<close>

text \<open>
  \<open>AddComponent<TComponent>(entity, args...)\<close>: \<open>componentId\<close> is
  \<open>Component<TComponent>::GetId()\<close>, \<open>d\<close> the value-initialised \<open>TComponent\<close> that fills a
  new or resized pool, \<open>newComponent\<close> the component constructed from \<open>args\<close>.
  \<open>componentId + 10\<close> and \<open>numEntity + 100\<close> are \<open>int\<close> expressions.
\<close>

definition AddComponent ::
  "nat \<Rightarrow> 'c \<Rightarrow> 'c \<Rightarrow> entity \<Rightarrow> 'c Registry \<Rightarrow> fault + 'c Registry" where
  "AddComponent componentId d newComponent entity r =
     (let entityId = entity in
      if length (componentsPools r) \<le> componentId \<and> INT_MAX < int componentId + 10
      then Inl UndefinedBehaviour
      else
        (let pools1 = (if length (componentsPools r) \<le> componentId
                       then vector_resize (componentId + 10) None (componentsPools r)
                       else componentsPools r)
         in case (case pools1 ! componentId of
                    None \<Rightarrow> Pool_new d 1000
                  | Some p \<Rightarrow> Inr p) of
              Inl f \<Rightarrow> Inl f
            | Inr componentPool0 \<Rightarrow>
                (case (if Pool_GetSize componentPool0 \<le> entityId
                       then (if INT_MAX < numEntity r + 100 then Inl UndefinedBehaviour
                             else Pool_Resize d (numEntity r + 100) componentPool0)
                       else Inr componentPool0) of
                   Inl f \<Rightarrow> Inl f
                 | Inr componentPool1 \<Rightarrow>
                     (case Pool_Set (to_unsigned entityId) newComponent componentPool1 of
                        Inl f \<Rightarrow> Inl f
                      | Inr componentPool2 \<Rightarrow>
                          if in_signatures entityId r then
                            (case bitset_set componentId True
                                    (entityComponentSignatures r ! nat entityId) of
                               Inl f \<Rightarrow> Inl f
                             | Inr sig \<Rightarrow>
                                 Inr (r\<lparr>componentsPools :=
                                          pools1[componentId := Some componentPool2],
                                        entityComponentSignatures :=
                                          (entityComponentSignatures r)[nat entityId := sig]\<rparr>))
                          else Inl UndefinedBehaviour))))"

definition RemoveComponent :: "nat \<Rightarrow> entity \<Rightarrow> 'c Registry \<Rightarrow> fault + 'c Registry" where
  "RemoveComponent componentId entity r =
     (let entityId = entity in
      if in_signatures entityId r then
        (case bitset_set componentId False (entityComponentSignatures r ! nat entityId) of
           Inl f \<Rightarrow> Inl f
         | Inr sig \<Rightarrow>
             Inr (r\<lparr>entityComponentSignatures :=
                      (entityComponentSignatures r)[nat entityId := sig]\<rparr>))
      else Inl UndefinedBehaviour)"

definition HasComponent :: "nat \<Rightarrow> entity \<Rightarrow> 'c Registry \<Rightarrow> fault + bool" where
  "HasComponent componentId entity r =
     (let entityId = entity in
      if in_signatures entityId r
      then bitset_test componentId (entityComponentSignatures r ! nat entityId)
      else Inl UndefinedBehaviour)"

definition GetComponent :: "nat \<Rightarrow> entity \<Rightarrow> 'c Registry \<Rightarrow> fault + 'c" where
  "GetComponent componentId entity r =
     (let entityId = entity in
      if componentId < length (componentsPools r) then
        (case componentsPools r ! componentId of
           None \<Rightarrow> Inl UndefinedBehaviour
         | Some componentPool \<Rightarrow> Pool_Get (to_unsigned entityId) componentPool)
      else Inl UndefinedBehaviour)"

subsection \<open>Systems of the registry\<close>

text \<open>
  \<open>AddSystem<TSystem>(args...)\<close>: \<open>t\<close> is \<open>std::type_index(typeid(TSystem))\<close> and
  \<open>newSystem\<close> the system constructed from \<open>args\<close>. \<open>std::unordered_map::insert\<close> inserts
  only when the key is absent.
\<close>

definition HasSystem :: "type_index \<Rightarrow> 'c Registry \<Rightarrow> bool" where
  "HasSystem t r \<longleftrightarrow> map_of (systems r) t \<noteq> None"

definition AddSystem :: "type_index \<Rightarrow> System \<Rightarrow> 'c Registry \<Rightarrow> 'c Registry" where
  "AddSystem t newSystem r =
     (if map_of (systems r) t \<noteq> None then r else r\<lparr>systems := systems r @ [(t, newSystem)]\<rparr>)"

text \<open>
  \<open>RemoveSystem\<close> erases the iterator that \<open>find\<close> returns and \<open>GetSystem\<close> dereferences
  it, neither compares it with \<open>end()\<close> first.
\<close>

definition RemoveSystem :: "type_index \<Rightarrow> 'c Registry \<Rightarrow> fault + 'c Registry" where
  "RemoveSystem t r =
     (case map_of (systems r) t of
        None \<Rightarrow> Inl UndefinedBehaviour
      | Some s \<Rightarrow> Inr (r\<lparr>systems := filter (\<lambda>(t', s'). t' \<noteq> t) (systems r)\<rparr>))"

definition GetSystem :: "type_index \<Rightarrow> 'c Registry \<Rightarrow> fault + System" where
  "GetSystem t r =
     (case map_of (systems r) t of
        None \<Rightarrow> Inl UndefinedBehaviour
      | Some s \<Rightarrow> Inr s)"

subsection \<open>Sequences of calls\<close>

datatype 'c call =
    Call_CreateEntity
  | Call_KillEntity entity
  | Call_Update
  | Call_ClearAllEntities
  | Call_AddComponent nat 'c 'c entity
  | Call_RemoveComponent nat entity
  | Call_AddSystem type_index System
  | Call_RemoveSystem type_index

fun exec :: "'c call \<Rightarrow> 'c Registry \<Rightarrow> fault + 'c Registry" where
  "exec Call_CreateEntity r =
     (case CreateEntity r of
        None \<Rightarrow> Inl NonTermination
      | Some (Inl f) \<Rightarrow> Inl f
      | Some (Inr (entity, r')) \<Rightarrow> Inr r')"
| "exec (Call_KillEntity entity) r = KillEntity entity r"
| "exec Call_Update r = Update r"
| "exec Call_ClearAllEntities r = ClearAllEntities r"
| "exec (Call_AddComponent componentId d newComponent entity) r =
     AddComponent componentId d newComponent entity r"
| "exec (Call_RemoveComponent componentId entity) r = RemoveComponent componentId entity r"
| "exec (Call_AddSystem t newSystem) r = Inr (AddSystem t newSystem r)"
| "exec (Call_RemoveSystem t) r = RemoveSystem t r"

fun run :: "'c call list \<Rightarrow> 'c Registry \<Rightarrow> fault + 'c Registry" where
  "run [] r = Inr r"
| "run (c # cs) r = (case exec c r of Inl f \<Rightarrow> Inl f | Inr r' \<Rightarrow> run cs r')"


text \<open>The calls of the entity life cycle, which take no argument that can be out of range.\<close>

fun lifecycle :: "'c call \<Rightarrow> bool" where
  "lifecycle Call_CreateEntity = True"
| "lifecycle (Call_KillEntity entity) = True"
| "lifecycle Call_Update = True"
| "lifecycle Call_ClearAllEntities = True"
| "lifecycle c = False"

text \<open>
  A sequence of calls in which every \<open>ClearAllEntities\<close> runs on a registry with no entity
  staged to be killed, as after an \<open>Update\<close>.
\<close>

fun clear_only_when_idle :: "'c call list \<Rightarrow> 'c Registry \<Rightarrow> bool" where
  "clear_only_when_idle [] r = True"
| "clear_only_when_idle (c # cs) r =
     ((if c = Call_ClearAllEntities then entitiesToBeKilled r = [] else True)
      \<and> (case exec c r of Inl f \<Rightarrow> True | Inr r' \<Rightarrow> clear_only_when_idle cs r'))"

section \<open>Measures and invariants\<close>

text \<open>
  What bounds the iterations of \<open>CreateEntity\<close>: the length of the free queue plus the number
  of active or to-be-killed ids that the counter has not passed yet.
\<close>

definition ahead :: "'c Registry \<Rightarrow> nat" where
  "ahead r = card {x \<in> set (activeEntityIds r) \<union> set (entitiesToBeKilled r). numEntity r \<le> x}"

definition retry_bound :: "'c Registry \<Rightarrow> nat" where
  "retry_bound r = length (freeIds r) + ahead r"

definition loop_bound :: "int \<Rightarrow> 'c Registry \<Rightarrow> nat" where
  "loop_bound entityId r = retry_bound r +
     (if entityId \<in> set (activeEntityIds r) \<union> set (entitiesToBeKilled r) then 1 else 0)"

text \<open>
  The iterations of \<open>Update\<close>, \<open>KillEntity\<close> and \<open>ClearAllEntities\<close> in closed form: the
  signatures of a list of ids reset, a list of ids removed from every system, and the
  entities of a list appended to every system that is interested in them.
\<close>

definition reset_all :: "int list \<Rightarrow> Signature list \<Rightarrow> Signature list" where
  "reset_all ks sigs = fold (\<lambda>k sg. sg[nat k := 0]) ks sigs"

definition drop_from_systems :: "int list \<Rightarrow> (type_index \<times> System) list \<Rightarrow> (type_index \<times> System) list" where
  "drop_from_systems ks ss = map (\<lambda>(t, s). (t, s\<lparr>entities := filter (\<lambda>x. x \<notin> set ks) (entities s)\<rparr>)) ss"

definition stage_into_systems :: "Signature list \<Rightarrow> int list \<Rightarrow> (type_index \<times> System) list \<Rightarrow> (type_index \<times> System) list" where
  "stage_into_systems sigs xs ss = map (\<lambda>(t, s). (t, s\<lparr>entities := entities s @
            filter (\<lambda>e. isInterested (sigs ! nat e) (componentSignature s)) xs\<rparr>)) ss"

text \<open>
  Invariants of the registry. \<open>ids_in_range\<close>: every id in the active set, the free queue
  and the two staging sets is below the counter, and the signature table reaches the
  counter. \<open>std_sets\<close>: the three \<open>std::set\<close>s are strictly ascending lists.
  \<open>staged_apart\<close>: the free queue has no duplicates and no active id, and every id staged
  to be killed is active.
\<close>

definition below :: "int \<Rightarrow> int list \<Rightarrow> bool" where
  "below n xs \<longleftrightarrow> (\<forall>x\<in>set xs. 0 \<le> x \<and> x < n)"

definition ids_in_range :: "'c Registry \<Rightarrow> bool" where
  "ids_in_range r \<longleftrightarrow>
     below (numEntity r) (activeEntityIds r) \<and> below (numEntity r) (freeIds r)
     \<and> below (numEntity r) (entitiesToBeKilled r) \<and> below (numEntity r) (entitiesToBeAdded r)
     \<and> 0 \<le> numEntity r \<and> numEntity r \<le> int (length (entityComponentSignatures r))"

definition std_sets :: "'c Registry \<Rightarrow> bool" where
  "std_sets r \<longleftrightarrow> sorted_wrt (<) (activeEntityIds r) \<and> sorted_wrt (<) (entitiesToBeKilled r)
     \<and> sorted_wrt (<) (entitiesToBeAdded r)"

definition staged_apart :: "'c Registry \<Rightarrow> bool" where
  "staged_apart r \<longleftrightarrow> distinct (freeIds r) \<and> set (freeIds r) \<inter> set (activeEntityIds r) = {}
     \<and> set (entitiesToBeKilled r) \<subseteq> set (activeEntityIds r)"

text \<open>
  States that calls reach from a new registry. \<open>cleared_while_staged\<close>: an entity is
  created and killed, and \<open>ClearAllEntities\<close> runs before the next \<open>Update\<close>.
  \<open>freed_twice\<close>: the \<open>Update\<close> that follows frees the id a second time and the next
  \<open>CreateEntity\<close> takes it. \<open>one_entity\<close>, \<open>killed_not_updated\<close>, \<open>reuse_after_update\<close>: an
  entity is created, then killed, then \<open>Update\<close> runs.
\<close>

definition cleared_while_staged :: "unit Registry" where
  "cleared_while_staged =
     \<lparr>numEntity = 1, componentsPools = [], entityComponentSignatures = replicate 100 0,
      systems = [], entitiesToBeAdded = [0], entitiesToBeKilled = [0], freeIds = [0],
      activeEntityIds = [],
      console = [Cout ''[Registry] Constructor is executed'',
                 Cout ''[REGISTRY] Now Freeing All ID'']\<rparr>"

definition freed_twice :: "unit Registry" where
  "freed_twice =
     \<lparr>numEntity = 1, componentsPools = [], entityComponentSignatures = replicate 100 0,
      systems = [], entitiesToBeAdded = [0], entitiesToBeKilled = [], freeIds = [0],
      activeEntityIds = [0],
      console = [Cout ''[Registry] Constructor is executed'',
                 Cout ''[REGISTRY] Now Freeing All ID'']\<rparr>"

definition one_entity :: "unit Registry" where
  "one_entity =
     \<lparr>numEntity = 1, componentsPools = [], entityComponentSignatures = replicate 100 0,
      systems = [], entitiesToBeAdded = [0], entitiesToBeKilled = [], freeIds = [],
      activeEntityIds = [0],
      console = [Cout ''[Registry] Constructor is executed'']\<rparr>"

definition reuse_after_update :: "unit Registry" where
  "reuse_after_update =
     \<lparr>numEntity = 1, componentsPools = [], entityComponentSignatures = replicate 100 0,
      systems = [], entitiesToBeAdded = [], entitiesToBeKilled = [], freeIds = [0],
      activeEntityIds = [],
      console = [Cout ''[Registry] Constructor is executed'']\<rparr>"

definition killed_not_updated :: "unit Registry" where
  "killed_not_updated =
     \<lparr>numEntity = 1, componentsPools = [], entityComponentSignatures = replicate 100 0,
      systems = [], entitiesToBeAdded = [0], entitiesToBeKilled = [0], freeIds = [],
      activeEntityIds = [0],
      console = [Cout ''[Registry] Constructor is executed'']\<rparr>"

text \<open>
  A registry with one system that requires component type 0 and one entity that has it,
  after \<open>Update\<close>; and the same registry after \<open>KillEntity\<close> of the entity.
\<close>

definition RenderSystem :: System where
  "RenderSystem = \<lparr>componentSignature = 1, entities = []\<rparr>"

definition in_render_system :: "nat Registry" where
  "in_render_system =
     \<lparr>numEntity = 1,
      componentsPools = (replicate 10 None)[0 := Some ((replicate 1000 0)[0 := 7])],
      entityComponentSignatures = (replicate 100 0)[0 := 1],
      systems = [(''RenderSystem'', \<lparr>componentSignature = 1, entities = [0]\<rparr>)],
      entitiesToBeAdded = [], entitiesToBeKilled = [], freeIds = [],
      activeEntityIds = [0],
      console = [Cout ''[Registry] Constructor is executed'']\<rparr>"

definition killed_in_render_system :: "nat Registry" where
  "killed_in_render_system =
     \<lparr>numEntity = 1,
      componentsPools = (replicate 10 None)[0 := Some ((replicate 1000 0)[0 := 7])],
      entityComponentSignatures = replicate 100 0,
      systems = [(''RenderSystem'', \<lparr>componentSignature = 1, entities = []\<rparr>)],
      entitiesToBeAdded = [], entitiesToBeKilled = [0], freeIds = [],
      activeEntityIds = [0],
      console = [Cout ''[Registry] Constructor is executed'']\<rparr>"

text \<open>
  The same registry before its \<open>Update\<close>; with the component added only after the first
  \<open>Update\<close>; and with the component removed after it.
\<close>

definition staged_for_render :: "nat Registry" where
  "staged_for_render =
     \<lparr>numEntity = 1,
      componentsPools = (replicate 10 None)[0 := Some ((replicate 1000 0)[0 := 7])],
      entityComponentSignatures = (replicate 100 0)[0 := 1],
      systems = [(''RenderSystem'', \<lparr>componentSignature = 1, entities = []\<rparr>)],
      entitiesToBeAdded = [0], entitiesToBeKilled = [], freeIds = [],
      activeEntityIds = [0],
      console = [Cout ''[Registry] Constructor is executed'']\<rparr>"

definition late_component :: "nat Registry" where
  "late_component =
     \<lparr>numEntity = 1,
      componentsPools = (replicate 10 None)[0 := Some ((replicate 1000 0)[0 := 7])],
      entityComponentSignatures = (replicate 100 0)[0 := 1],
      systems = [(''RenderSystem'', \<lparr>componentSignature = 1, entities = []\<rparr>)],
      entitiesToBeAdded = [], entitiesToBeKilled = [], freeIds = [],
      activeEntityIds = [0],
      console = [Cout ''[Registry] Constructor is executed'']\<rparr>"

definition removed_component :: "nat Registry" where
  "removed_component =
     \<lparr>numEntity = 1,
      componentsPools = (replicate 10 None)[0 := Some ((replicate 1000 0)[0 := 7])],
      entityComponentSignatures = replicate 100 0,
      systems = [(''RenderSystem'', \<lparr>componentSignature = 1, entities = [0]\<rparr>)],
      entitiesToBeAdded = [], entitiesToBeKilled = [], freeIds = [],
      activeEntityIds = [0],
      console = [Cout ''[Registry] Constructor is executed'']\<rparr>"

text \<open>
  The killed entity of \<open>killed_in_render_system\<close> after \<open>Update\<close>, and after
  \<open>ClearAllEntities\<close> instead.
\<close>

definition updated_render :: "nat Registry" where
  "updated_render =
     \<lparr>numEntity = 1,
      componentsPools = (replicate 10 None)[0 := Some ((replicate 1000 0)[0 := 7])],
      entityComponentSignatures = replicate 100 0,
      systems = [(''RenderSystem'', \<lparr>componentSignature = 1, entities = []\<rparr>)],
      entitiesToBeAdded = [], entitiesToBeKilled = [], freeIds = [0],
      activeEntityIds = [],
      console = [Cout ''[Registry] Constructor is executed'']\<rparr>"

definition cleared_render :: "nat Registry" where
  "cleared_render =
     \<lparr>numEntity = 1,
      componentsPools = (replicate 10 None)[0 := Some ((replicate 1000 0)[0 := 7])],
      entityComponentSignatures = replicate 100 0,
      systems = [(''RenderSystem'', \<lparr>componentSignature = 1, entities = []\<rparr>)],
      entitiesToBeAdded = [], entitiesToBeKilled = [0], freeIds = [0],
      activeEntityIds = [],
      console = [Cout ''[Registry] Constructor is executed'',
                 Cout ''[REGISTRY] Now Freeing All ID'']\<rparr>"

text \<open>
  \<open>loop_and_retry\<close>: the free queue holds the active id 0 and then the id 1, which is
  staged to be killed and not active. \<open>killed_after_clear\<close>: \<open>ClearAllEntities\<close> ran after an
  \<open>Update\<close>, and an entity created and killed since then is staged while the queue holds
  another id.
\<close>

definition loop_and_retry :: "unit Registry" where
  "loop_and_retry =
     \<lparr>numEntity = 2, componentsPools = [], entityComponentSignatures = replicate 100 0,
      systems = [], entitiesToBeAdded = [0, 1], entitiesToBeKilled = [1], freeIds = [0, 1],
      activeEntityIds = [0],
      console = [Cout ''[Registry] Constructor is executed'',
                 Cout ''[REGISTRY] Now Freeing All ID'',
                 Cout ''[REGISTRY] Now Freeing All ID'']\<rparr>"

definition killed_after_clear :: "unit Registry" where
  "killed_after_clear =
     \<lparr>numEntity = 2, componentsPools = [], entityComponentSignatures = replicate 100 0,
      systems = [], entitiesToBeAdded = [0], entitiesToBeKilled = [0], freeIds = [1],
      activeEntityIds = [0],
      console = [Cout ''[Registry] Constructor is executed'',
                 Cout ''[REGISTRY] Now Freeing All ID'']\<rparr>"

section \<open>CreateEntity returns\<close>

lemma pick_id_frame:
  assumes "pick_id r = Inr (entityId, r')"
  shows "activeEntityIds r' = activeEntityIds r" "entitiesToBeKilled r' = entitiesToBeKilled r"
    "entitiesToBeAdded r' = entitiesToBeAdded r" "systems r' = systems r"
    "componentsPools r' = componentsPools r" "console r' = console r"
  using assms by (auto simp: pick_id_def Let_def split: if_splits)

lemma pick_id_counter:
  assumes "pick_id r = Inr (entityId, r')" "freeIds r = []"
  shows "entityId = numEntity r" "numEntity r' = numEntity r + 1" "freeIds r' = []"
  using assms by (auto simp: pick_id_def Let_def split: if_splits)

lemma pick_id_queue:
  assumes "pick_id r = Inr (entityId, r')" "freeIds r \<noteq> []"
  shows "entityId = hd (freeIds r)" "numEntity r' = numEntity r" "freeIds r' = tl (freeIds r)"
    "entityComponentSignatures r' = entityComponentSignatures r"
  using assms by (auto simp: pick_id_def)

lemma card_ahead_step:
  assumes "finite S"
  shows "card {x \<in> S. n + 1 \<le> x} \<le> card {x \<in> S. (n::int) \<le> x}"
    and "n \<in> S \<Longrightarrow> card {x \<in> S. n + 1 \<le> x} < card {x \<in> S. n \<le> x}"
proof -
  show "card {x \<in> S. n + 1 \<le> x} \<le> card {x \<in> S. n \<le> x}"
    using assms by (intro card_mono) auto
  assume "n \<in> S"
  then have "n \<in> {x \<in> S. n \<le> x}" "n \<notin> {x \<in> S. n + 1 \<le> x}" by auto
  then have "{x \<in> S. n + 1 \<le> x} \<subset> {x \<in> S. n \<le> x}" by force
  then show "card {x \<in> S. n + 1 \<le> x} < card {x \<in> S. n \<le> x}"
    using assms by (intro psubset_card_mono) auto
qed

lemma pick_id_bound:
  assumes "pick_id r = Inr (entityId, r')"
  shows "loop_bound entityId r' \<le> retry_bound r"
proof (cases "freeIds r = []")
  case True
  let ?S = "set (activeEntityIds r) \<union> set (entitiesToBeKilled r)"
  note c = pick_id_counter[OF assms True]
  have fr: "activeEntityIds r' = activeEntityIds r" "entitiesToBeKilled r' = entitiesToBeKilled r"
    using pick_id_frame[OF assms] by auto
  have fin: "finite ?S" by simp
  have a: "ahead r' = card {x \<in> ?S. numEntity r + 1 \<le> x}"
    by (simp add: ahead_def fr c)
  have b: "ahead r = card {x \<in> ?S. numEntity r \<le> x}"
    by (simp add: ahead_def)
  show ?thesis
    using card_ahead_step[OF fin, of "numEntity r"] True
    by (auto simp: loop_bound_def retry_bound_def a b c fr)
next
  case False
  note q = pick_id_queue[OF assms False]
  have "activeEntityIds r' = activeEntityIds r" "entitiesToBeKilled r' = entitiesToBeKilled r"
    using pick_id_frame[OF assms] by auto
  with False q show ?thesis
    by (cases "freeIds r") (auto simp: loop_bound_def retry_bound_def ahead_def)
qed

text \<open>
  The rule of the loop, for total correctness: \<open>I\<close> is kept by every pick of the body,
  \<open>F\<close> holds of every fault of a pick.
\<close>

lemma skip_active_rule:
  assumes step: "\<And>i s i' s'. I i s \<Longrightarrow> i \<in> set (activeEntityIds s)
        \<Longrightarrow> pick_id s = Inr (i', s') \<Longrightarrow> I i' s'"
    and fault: "\<And>i s f. I i s \<Longrightarrow> i \<in> set (activeEntityIds s) \<Longrightarrow> pick_id s = Inl f \<Longrightarrow> F f"
    and init: "I entityId r"
  shows "(\<exists>f. skip_active entityId r = Some (Inl f) \<and> F f)
     \<or> (\<exists>entityId' r'. skip_active entityId r = Some (Inr (entityId', r'))
          \<and> I entityId' r' \<and> entityId' \<notin> set (activeEntityIds r')
          \<and> loop_bound entityId' r' \<le> loop_bound entityId r)"
  using init
proof (induction "loop_bound entityId r" arbitrary: entityId r rule: less_induct)
  case less
  show ?case
  proof (cases "entityId \<in> set (activeEntityIds r)")
    case False
    then show ?thesis using less.prems by (subst skip_active.simps) simp
  next
    case True
    show ?thesis
    proof (cases "pick_id r")
      case (Inl f)
      then have "skip_active entityId r = Some (Inl f)"
        using True by (subst skip_active.simps) simp
      then show ?thesis using fault[OF less.prems True Inl] by simp
    next
      case (Inr p)
      obtain i1 r1 where p: "pick_id r = Inr (i1, r1)" using Inr by (cases p) auto
      have lt: "loop_bound i1 r1 < loop_bound entityId r"
        using pick_id_bound[OF p] True by (simp add: loop_bound_def)
      have "I i1 r1" using step[OF less.prems True p] .
      note ih = less.hyps[OF lt this]
      have e: "skip_active entityId r = skip_active i1 r1"
        using True p by (subst skip_active.simps) simp
      show ?thesis using ih lt unfolding e by force
    qed
  qed
qed

lemma retry_bound_console [simp]: "retry_bound (r\<lparr>console := c\<rparr>) = retry_bound r"
  by (simp add: retry_bound_def ahead_def)

text \<open>
  The rule of \<open>CreateEntity\<close>: \<open>J\<close> holds when a call starts, \<open>I\<close> of the picked id and the
  state during the loop, \<open>F\<close> of every fault.
\<close>

lemma CreateEntity_rule:
  assumes pick: "\<And>s i s'. J s \<Longrightarrow> pick_id s = Inr (i, s') \<Longrightarrow> I i s'"
    and pick_fault: "\<And>s f. J s \<Longrightarrow> pick_id s = Inl f \<Longrightarrow> F f"
    and step: "\<And>i s i' s'. I i s \<Longrightarrow> i \<in> set (activeEntityIds s)
        \<Longrightarrow> pick_id s = Inr (i', s') \<Longrightarrow> I i' s'"
    and step_fault: "\<And>i s f. I i s \<Longrightarrow> i \<in> set (activeEntityIds s)
        \<Longrightarrow> pick_id s = Inl f \<Longrightarrow> F f"
    and retry: "\<And>i s. I i s \<Longrightarrow> i \<notin> set (activeEntityIds s) \<Longrightarrow> i \<in> set (entitiesToBeKilled s)
        \<Longrightarrow> J (s\<lparr>console := console s @ [retry_message i]\<rparr>)"
    and init: "J r"
  shows "(\<exists>f. CreateEntity r = Some (Inl f) \<and> F f)
     \<or> (\<exists>entity r1. CreateEntity r = Some (Inr (entity, mark_active entity r1))
          \<and> I entity r1 \<and> entity \<notin> set (activeEntityIds r1)
          \<and> entity \<notin> set (entitiesToBeKilled r1))"
  using init
proof (induction "retry_bound r" arbitrary: r rule: less_induct)
  case less
  show ?case
  proof (cases "pick_id r")
    case (Inl f)
    then have "CreateEntity r = Some (Inl f)" by (subst CreateEntity.simps) simp
    then show ?thesis using pick_fault[OF less.prems Inl] by simp
  next
    case (Inr p0)
    obtain i0 r0 where p: "pick_id r = Inr (i0, r0)" using Inr by (cases p0) auto
    have I0: "I i0 r0" using pick[OF less.prems p] .
    have "(\<exists>f. skip_active i0 r0 = Some (Inl f) \<and> F f)
      \<or> (\<exists>i1 r1. skip_active i0 r0 = Some (Inr (i1, r1)) \<and> I i1 r1
          \<and> i1 \<notin> set (activeEntityIds r1) \<and> loop_bound i1 r1 \<le> loop_bound i0 r0)"
      using I0 by (rule skip_active_rule[where I = I and F = F, rotated 2]) (fact step step_fault)+
    then show ?thesis
    proof (elim disjE exE conjE)
      fix f assume "skip_active i0 r0 = Some (Inl f)" "F f"
      moreover from this have "CreateEntity r = Some (Inl f)"
        using p by (subst CreateEntity.simps) simp
      ultimately show ?thesis by simp
    next
      fix i1 r1
      assume s: "skip_active i0 r0 = Some (Inr (i1, r1))" and I1: "I i1 r1"
        and na: "i1 \<notin> set (activeEntityIds r1)" and le: "loop_bound i1 r1 \<le> loop_bound i0 r0"
      show ?thesis
      proof (cases "i1 \<in> set (entitiesToBeKilled r1)")
        case False
        then have "CreateEntity r = Some (Inr (i1, mark_active i1 r1))"
          using p s by (subst CreateEntity.simps) simp
        then show ?thesis using I1 na False by blast
      next
        case True
        let ?r2 = "r1\<lparr>console := console r1 @ [retry_message i1]\<rparr>"
        have lt: "retry_bound ?r2 < retry_bound r"
          using le pick_id_bound[OF p] True by (simp add: loop_bound_def)
        have "J ?r2" using retry[OF I1 na True] .
        note ih = less.hyps[OF lt this]
        have e: "CreateEntity r = CreateEntity ?r2"
          using p s True by (subst CreateEntity.simps) simp
        show ?thesis using ih unfolding e .
      qed
    qed
  qed
qed

lemma set_set_insert [simp]: "set (set_insert x xs) = insert x (set xs)"
  by (auto simp: set_insert_def set_insort_key)

lemma strict_set_insert: "sorted_wrt (<) xs \<Longrightarrow> sorted_wrt (<) (set_insert x xs)"
  by (auto simp: set_insert_def strict_sorted_iff sorted_insort distinct_insort)

lemma skip_active_returns: "skip_active entityId r \<noteq> None"
  using skip_active_rule[where I = "\<lambda>i s. True" and F = "\<lambda>f. True" and entityId = entityId and r = r]
  by auto

lemma CreateEntity_total:
  "\<exists>found. CreateEntity r = Some found
     \<and> (\<forall>entity r'. found = Inr (entity, r') \<longrightarrow>
          entity \<notin> set (activeEntityIds r) \<and> entity \<notin> set (entitiesToBeKilled r)
          \<and> activeEntityIds r' = set_insert entity (activeEntityIds r)
          \<and> entitiesToBeAdded r' = set_insert entity (entitiesToBeAdded r)
          \<and> entitiesToBeKilled r' = entitiesToBeKilled r
          \<and> systems r' = systems r \<and> componentsPools r' = componentsPools r)"
proof -
  define J where "J s \<longleftrightarrow> activeEntityIds s = activeEntityIds r
     \<and> entitiesToBeKilled s = entitiesToBeKilled r \<and> entitiesToBeAdded s = entitiesToBeAdded r
     \<and> systems s = systems r \<and> componentsPools s = componentsPools r" for s :: "'a Registry"
  have "(\<exists>f. CreateEntity r = Some (Inl f) \<and> True)
     \<or> (\<exists>entity r1. CreateEntity r = Some (Inr (entity, mark_active entity r1))
     \<and> J r1 \<and> entity \<notin> set (activeEntityIds r1) \<and> entity \<notin> set (entitiesToBeKilled r1))"
    by (rule CreateEntity_rule[where J = J and I = "\<lambda>i. J" and F = "\<lambda>f. True"])
       (auto simp: J_def dest: pick_id_frame)
  then show ?thesis by (auto simp: J_def mark_active_def)
qed

lemma CreateEntity_returns: "CreateEntity r \<noteq> None"
  using CreateEntity_total[of r] by auto

lemma CreateEntity_Inr:
  assumes "CreateEntity r = Some (Inr (entity, r'))"
  shows "entity \<notin> set (activeEntityIds r)" "entity \<notin> set (entitiesToBeKilled r)"
    "activeEntityIds r' = set_insert entity (activeEntityIds r)"
    "entitiesToBeAdded r' = set_insert entity (entitiesToBeAdded r)"
    "entitiesToBeKilled r' = entitiesToBeKilled r"
    "systems r' = systems r" "componentsPools r' = componentsPools r"
  using CreateEntity_total[of r] assms by auto

section \<open>The operations in closed form\<close>

lemma for_each_AddEntityToSystems:
  "for_each AddEntityToSystems xs r = Inr r' \<Longrightarrow>
     r' = r\<lparr>systems := map (\<lambda>(t, s). (t, s\<lparr>entities := entities s @
            filter (\<lambda>e. isInterested (entityComponentSignatures r ! nat e) (componentSignature s)) xs\<rparr>))
          (systems r)\<rparr>"
proof (induction xs arbitrary: r)
  case Nil
  then show ?case by (simp add: case_prod_unfold)
next
  case (Cons x xs)
  then obtain r1 where a: "AddEntityToSystems x r = Inr r1" and b: "for_each AddEntityToSystems xs r1 = Inr r'"
    by (auto split: sum.splits)
  from a have r1: "r1 = r\<lparr>systems := map (\<lambda>(t, s).
               (t, if isInterested (entityComponentSignatures r ! nat x) (componentSignature s)
                   then s\<lparr>entities := entities s @ [x]\<rparr> else s)) (systems r)\<rparr>"
    by (auto simp: AddEntityToSystems_def AddEntityToSystem_def GetComponentSignature_def Let_def split: if_splits cong: if_cong)
  show ?case
    unfolding Cons.IH[OF b] by (subst r1)+ (auto simp: case_prod_unfold)
qed

lemma for_each_AddEntityToSystems_ok:
  "\<forall>x\<in>set xs. in_signatures x r \<Longrightarrow> \<exists>r'. for_each AddEntityToSystems xs r = Inr r'"
proof (induction xs arbitrary: r)
  case Nil
  then show ?case by simp
next
  case (Cons x xs)
  then obtain r1 where a: "AddEntityToSystems x r = Inr r1" 
    by (auto simp: AddEntityToSystems_def Let_def)
  then have "entityComponentSignatures r1 = entityComponentSignatures r"
    by (auto simp: AddEntityToSystems_def Let_def split: if_splits)
  then have "\<forall>x\<in>set xs. in_signatures x r1" using Cons.prems by (simp add: in_signatures_def)
  from Cons.IH[OF this] a show ?case by auto
qed

lemma for_each_AddEntityToSystems_range:
  "for_each AddEntityToSystems xs r = Inr r' \<Longrightarrow> x \<in> set xs \<Longrightarrow> in_signatures x r"
proof (induction xs arbitrary: r)
  case Nil
  then show ?case by simp
next
  case (Cons y ys)
  then obtain r1 where a: "AddEntityToSystems y r = Inr r1" and b: "for_each AddEntityToSystems ys r1 = Inr r'"
    by (auto split: sum.splits)
  from a have "in_signatures y r" "entityComponentSignatures r1 = entityComponentSignatures r"
    by (auto simp: AddEntityToSystems_def Let_def split: if_splits)
  then show ?case using Cons.IH[OF b] Cons.prems(2) by (auto simp: in_signatures_def)
qed

lemma for_each_free_killed:
  "for_each free_killed ks r = Inr r' \<Longrightarrow>
     r' = r\<lparr>systems := drop_from_systems ks (systems r),
            entityComponentSignatures := reset_all ks (entityComponentSignatures r),
            activeEntityIds := filter (\<lambda>x. x \<notin> set ks) (activeEntityIds r),
            freeIds := freeIds r @ ks\<rparr>"
proof (induction ks arbitrary: r)
  case Nil
  then show ?case by (simp add: case_prod_unfold reset_all_def drop_from_systems_def)
next
  case (Cons k ks)
  then obtain r1 where a: "free_killed k r = Inr r1" and b: "for_each free_killed ks r1 = Inr r'"
    by (auto split: sum.splits)
  from a have r1: "r1 = r\<lparr>systems := map (\<lambda>(t, s). (t, s\<lparr>entities := filter (\<lambda>x. k \<noteq> x) (entities s)\<rparr>)) (systems r),
       entityComponentSignatures := (entityComponentSignatures r)[nat k := 0],
       activeEntityIds := removeAll k (activeEntityIds r),
       freeIds := freeIds r @ [k]\<rparr>"
    by (auto simp: free_killed_def reset_signature_def RemoveEntityFromSystems_def set_erase_def
         RemoveEntityFromSystem_def in_signatures_def Let_def split: if_splits sum.splits)
  have f: "filter (\<lambda>x. x \<notin> set ks) (removeAll k xs) = filter (\<lambda>x. x \<noteq> k \<and> x \<notin> set ks) xs" for xs
    by (induction xs) auto
  have g: "drop_from_systems ks (map (\<lambda>(t, s). (t, s\<lparr>entities := filter (\<lambda>x. k \<noteq> x) (entities s)\<rparr>)) ss)
      = drop_from_systems (k # ks) ss" for ss
  proof -
    have e: "(\<lambda>x. k \<noteq> x \<and> x \<notin> set ks) = (\<lambda>x. x \<noteq> k \<and> x \<notin> set ks)" by auto
    show ?thesis by (induction ss) (auto simp: drop_from_systems_def e)
  qed
  show ?case
    unfolding Cons.IH[OF b] by (subst r1)+ (simp add: reset_all_def f g)
qed

lemma length_reset_all [simp]: "length (reset_all ks sigs) = length sigs"
  unfolding reset_all_def by (induction ks arbitrary: sigs) auto

lemma for_each_free_killed_ok:
  "\<forall>x\<in>set ks. in_signatures x r \<Longrightarrow> \<exists>r'. for_each free_killed ks r = Inr r'"
proof (induction ks arbitrary: r)
  case Nil
  then show ?case by simp
next
  case (Cons k ks)
  then obtain r1 where a: "free_killed k r = Inr r1"
    by (auto simp: free_killed_def reset_signature_def RemoveEntityFromSystems_def in_signatures_def)
  then have "length (entityComponentSignatures r1) = length (entityComponentSignatures r)"
    by (auto simp: free_killed_def reset_signature_def RemoveEntityFromSystems_def Let_def
        split: if_splits sum.splits)
  then have "\<forall>x\<in>set ks. in_signatures x r1" using Cons.prems by (simp add: in_signatures_def)
  from Cons.IH[OF this] a show ?case by auto
qed

lemma for_each_free_killed_range:
  "for_each free_killed ks r = Inr r' \<Longrightarrow> k \<in> set ks \<Longrightarrow> in_signatures k r"
proof (induction ks arbitrary: r)
  case Nil
  then show ?case by simp
next
  case (Cons y ys)
  then obtain r1 where a: "free_killed y r = Inr r1" and b: "for_each free_killed ys r1 = Inr r'"
    by (auto split: sum.splits)
  from a have "in_signatures y r"
    "length (entityComponentSignatures r1) = length (entityComponentSignatures r)"
    by (auto simp: free_killed_def reset_signature_def RemoveEntityFromSystems_def in_signatures_def
          Let_def split: if_splits sum.splits)
  then show ?case using Cons.IH[OF b] Cons.prems(2) by (auto simp: in_signatures_def)
qed

lemma for_each_free_active:
  "for_each free_active ks r = Inr r' \<Longrightarrow>
     r' = r\<lparr>systems := drop_from_systems ks (systems r),
            entityComponentSignatures := reset_all ks (entityComponentSignatures r),
            freeIds := freeIds r @ ks\<rparr>"
proof (induction ks arbitrary: r)
  case Nil
  then show ?case by (simp add: case_prod_unfold reset_all_def drop_from_systems_def)
next
  case (Cons k ks)
  then obtain r1 where a: "free_active k r = Inr r1" and b: "for_each free_active ks r1 = Inr r'"
    by (auto split: sum.splits)
  from a have r1: "r1 = r\<lparr>systems := map (\<lambda>(t, s). (t, s\<lparr>entities := filter (\<lambda>x. k \<noteq> x) (entities s)\<rparr>)) (systems r),
       entityComponentSignatures := (entityComponentSignatures r)[nat k := 0],
       freeIds := freeIds r @ [k]\<rparr>"
    by (auto simp: free_active_def reset_signature_def RemoveEntityFromSystems_def
         RemoveEntityFromSystem_def in_signatures_def Let_def split: if_splits sum.splits)
  have g: "drop_from_systems ks (map (\<lambda>(t, s). (t, s\<lparr>entities := filter (\<lambda>x. k \<noteq> x) (entities s)\<rparr>)) ss)
      = drop_from_systems (k # ks) ss" for ss
  proof -
    have e: "(\<lambda>x. k \<noteq> x \<and> x \<notin> set ks) = (\<lambda>x. x \<noteq> k \<and> x \<notin> set ks)" by auto
    show ?thesis by (induction ss) (auto simp: drop_from_systems_def e)
  qed
  show ?case
    unfolding Cons.IH[OF b] by (subst r1)+ (simp add: reset_all_def g)
qed

lemma for_each_free_active_ok:
  "\<forall>x\<in>set ks. in_signatures x r \<Longrightarrow> \<exists>r'. for_each free_active ks r = Inr r'"
proof (induction ks arbitrary: r)
  case Nil
  then show ?case by simp
next
  case (Cons k ks)
  then obtain r1 where a: "free_active k r = Inr r1"
    by (auto simp: free_active_def reset_signature_def RemoveEntityFromSystems_def in_signatures_def)
  then have "length (entityComponentSignatures r1) = length (entityComponentSignatures r)"
    by (auto simp: free_active_def reset_signature_def RemoveEntityFromSystems_def Let_def
        split: if_splits sum.splits)
  then have "\<forall>x\<in>set ks. in_signatures x r1" using Cons.prems by (simp add: in_signatures_def)
  from Cons.IH[OF this] a show ?case by auto
qed

lemma Update_eq:
  assumes "Update r = Inr r'"
  shows "r' = r\<lparr>systems := drop_from_systems (entitiesToBeKilled r)
                   (stage_into_systems (entityComponentSignatures r) (entitiesToBeAdded r) (systems r)),
               entityComponentSignatures := reset_all (entitiesToBeKilled r) (entityComponentSignatures r),
               activeEntityIds := filter (\<lambda>x. x \<notin> set (entitiesToBeKilled r)) (activeEntityIds r),
               freeIds := freeIds r @ entitiesToBeKilled r,
               entitiesToBeAdded := [], entitiesToBeKilled := []\<rparr>"
proof -
  from assms obtain r1 r2 where a: "for_each AddEntityToSystems (entitiesToBeAdded r) r = Inr r1"
    and b: "for_each free_killed (entitiesToBeKilled r1) (r1\<lparr>entitiesToBeAdded := []\<rparr>) = Inr r2"
    and c: "r' = r2\<lparr>entitiesToBeKilled := []\<rparr>"
    by (auto simp: Update_def split: sum.splits)
  show ?thesis
    unfolding c for_each_free_killed[OF b]
    by (subst for_each_AddEntityToSystems[OF a])+ (simp add: stage_into_systems_def)
qed

lemma Update_ok:
  assumes "\<forall>x\<in>set (entitiesToBeAdded r) \<union> set (entitiesToBeKilled r). in_signatures x r"
  shows "\<exists>r'. Update r = Inr r'"
proof -
  from assms obtain r1 where a: "for_each AddEntityToSystems (entitiesToBeAdded r) r = Inr r1"
    using for_each_AddEntityToSystems_ok[of "entitiesToBeAdded r" r] by auto
  have "\<forall>x\<in>set (entitiesToBeKilled r1). in_signatures x (r1\<lparr>entitiesToBeAdded := []\<rparr>)"
    using assms by (subst (1 2) for_each_AddEntityToSystems[OF a]) (simp add: in_signatures_def)
  from for_each_free_killed_ok[OF this] a show ?thesis
    by (auto simp: Update_def)
qed

lemma Update_range:
  assumes "Update r = Inr r'" "x \<in> set (entitiesToBeAdded r) \<union> set (entitiesToBeKilled r)"
  shows "in_signatures x r"
proof -
  from assms(1) obtain r1 r2 where a: "for_each AddEntityToSystems (entitiesToBeAdded r) r = Inr r1"
    and b: "for_each free_killed (entitiesToBeKilled r1) (r1\<lparr>entitiesToBeAdded := []\<rparr>) = Inr r2"
    by (auto simp: Update_def split: sum.splits)
  have r1: "entitiesToBeKilled r1 = entitiesToBeKilled r"
    "entityComponentSignatures r1 = entityComponentSignatures r"
    by (subst for_each_AddEntityToSystems[OF a], simp)+
  show ?thesis
    using assms(2) for_each_AddEntityToSystems_range[OF a, of x]
      for_each_free_killed_range[OF b, of x] r1
    by (auto simp: in_signatures_def)
qed

lemma ClearAllEntities_eq:
  assumes "ClearAllEntities r = Inr r'"
  shows "r' = r\<lparr>systems := drop_from_systems (activeEntityIds r) (systems r),
               entityComponentSignatures := reset_all (activeEntityIds r) (entityComponentSignatures r),
               freeIds := freeIds r @ activeEntityIds r,
               activeEntityIds := [],
               console := console r @ [Cout ''[REGISTRY] Now Freeing All ID'']\<rparr>"
proof -
  from assms obtain r1 where a: "for_each free_active (activeEntityIds r)
             (r\<lparr>console := console r @ [Cout ''[REGISTRY] Now Freeing All ID'']\<rparr>) = Inr r1"
    and c: "r' = r1\<lparr>activeEntityIds := []\<rparr>"
    by (auto simp: ClearAllEntities_def split: sum.splits)
  show ?thesis
    unfolding c for_each_free_active[OF a] by simp
qed

lemma ClearAllEntities_ok:
  assumes "\<forall>x\<in>set (activeEntityIds r). in_signatures x r"
  shows "\<exists>r'. ClearAllEntities r = Inr r'"
proof -
  have "\<forall>x\<in>set (activeEntityIds r). in_signatures x (r\<lparr>console := console r @ [Cout ''[REGISTRY] Now Freeing All ID'']\<rparr>)"
    using assms by (simp add: in_signatures_def)
  from for_each_free_active_ok[OF this] show ?thesis
    by (auto simp: ClearAllEntities_def)
qed

lemma RemoveEntityFromSystems_eq:
  "RemoveEntityFromSystems entity r = r\<lparr>systems := drop_from_systems [entity] (systems r)\<rparr>"
proof -
  have "(\<lambda>other. \<not> entity = other) = (\<lambda>x. x \<notin> set [entity])" by auto
  then show ?thesis
    by (simp add: RemoveEntityFromSystems_def drop_from_systems_def RemoveEntityFromSystem_def)
qed

lemma KillEntity_eq:
  assumes "KillEntity entity r = Inr r'" "entity \<in> set (activeEntityIds r)"
  shows "r' = r\<lparr>systems := drop_from_systems [entity] (systems r),
               entityComponentSignatures := (entityComponentSignatures r)[nat entity := 0],
               entitiesToBeKilled := set_insert entity (entitiesToBeKilled r)\<rparr>"
    and "in_signatures entity r"
  using assms
  by (auto simp: KillEntity_def reset_signature_def RemoveEntityFromSystems_eq
         in_signatures_def Let_def split: if_splits sum.splits)

lemma KillEntity_ok:
  assumes "entity \<in> set (activeEntityIds r) \<longrightarrow> in_signatures entity r"
  shows "\<exists>r'. KillEntity entity r = Inr r'"
  using assms
  by (auto simp: KillEntity_def reset_signature_def RemoveEntityFromSystems_def in_signatures_def Let_def)

lemma AddComponent_eq:
  assumes "AddComponent componentId d newComponent entity r = Inr r'"
  shows "\<exists>pools sig. r' = r\<lparr>componentsPools := pools,
           entityComponentSignatures := (entityComponentSignatures r)[nat entity := sig]\<rparr>"
  using assms by (auto simp: AddComponent_def Let_def split: sum.splits if_splits)

lemma RemoveComponent_eq:
  assumes "RemoveComponent componentId entity r = Inr r'"
  shows "\<exists>sig. r' = r\<lparr>entityComponentSignatures := (entityComponentSignatures r)[nat entity := sig]\<rparr>"
  using assms by (auto simp: RemoveComponent_def Let_def split: sum.splits if_splits)

lemma RemoveSystem_eq:
  assumes "RemoveSystem t r = Inr r'"
  shows "\<exists>ss. r' = r\<lparr>systems := ss\<rparr>"
  using assms by (auto simp: RemoveSystem_def split: option.splits)

lemma AddSystem_eq: "\<exists>ss. AddSystem t s r = r\<lparr>systems := ss\<rparr>"
proof (cases "map_of (systems r) t")
  case None
  then show ?thesis by (auto simp: AddSystem_def)
next
  case (Some a)
  then show ?thesis by (auto simp: AddSystem_def intro: exI[of _ "systems r"])
qed

lemma reset_all_nth:
  assumes "\<forall>k\<in>set ks. 0 \<le> k" "0 \<le> e" "e \<notin> set ks"
  shows "reset_all ks sigs ! nat e = sigs ! nat e"
  using assms unfolding reset_all_def
proof (induction ks arbitrary: sigs)
  case Nil
  then show ?case by simp
next
  case (Cons k ks)
  then have "nat k \<noteq> nat e" by auto
  then show ?case using Cons by simp
qed

lemma drop_from_systems_absent:
  "(t, s) \<in> set (drop_from_systems ks ss) \<Longrightarrow> k \<in> set ks \<Longrightarrow> k \<notin> set (entities s)"
  by (auto simp: drop_from_systems_def)

lemma drop_from_systems_keys [simp]: "map fst (drop_from_systems ks ss) = map fst ss"
  by (induction ss) (auto simp: drop_from_systems_def)

lemma stage_into_systems_keys [simp]: "map fst (stage_into_systems sigs xs ss) = map fst ss"
  by (induction ss) (auto simp: stage_into_systems_def)

lemma map_of_drop_from_systems:
  "map_of (drop_from_systems ks ss) t
     = map_option (\<lambda>s. s\<lparr>entities := filter (\<lambda>x. x \<notin> set ks) (entities s)\<rparr>) (map_of ss t)"
  by (induction ss) (auto simp: drop_from_systems_def)

lemma map_of_stage_into_systems:
  "map_of (stage_into_systems sigs xs ss) t
     = map_option (\<lambda>s. s\<lparr>entities := entities s @
            filter (\<lambda>e. isInterested (sigs ! nat e) (componentSignature s)) xs\<rparr>) (map_of ss t)"
  by (induction ss) (auto simp: stage_into_systems_def)

section \<open>Invariants of the registry\<close>

lemma below_simps [simp]:
  "below n []"
  "below n (x # xs) \<longleftrightarrow> 0 \<le> x \<and> x < n \<and> below n xs"
  "below n (xs @ ys) \<longleftrightarrow> below n xs \<and> below n ys"
  "below n (set_insert x xs) \<longleftrightarrow> 0 \<le> x \<and> x < n \<and> below n xs"
  by (auto simp: below_def)

lemma below_mono: "below n xs \<Longrightarrow> n \<le> m \<Longrightarrow> below m xs"
  by (fastforce simp: below_def)

lemma below_filter: "below n xs \<Longrightarrow> below n (filter P xs)"
  by (simp add: below_def)

lemma below_mem: "below n xs \<Longrightarrow> x \<in> set xs \<Longrightarrow> 0 \<le> x \<and> x < n"
  by (simp add: below_def)

lemma ids_in_range_console [simp]: "ids_in_range (r\<lparr>console := c\<rparr>) = ids_in_range r"
  by (simp add: ids_in_range_def)

text \<open>
  In a registry whose ids are in range, a pick from the counter fails only within 100 of
  \<open>INT_MAX\<close>, and it gives the counter itself, which is no id of the registry yet.
\<close>

lemma pick_id_in_range:
  assumes "ids_in_range s"
  shows "pick_id s = Inr (i, s') \<Longrightarrow> ids_in_range s' \<and> 0 \<le> i \<and> i < numEntity s'
      \<and> (numEntity s' = numEntity s \<or> numEntity s' = numEntity s + 1 \<and> i = numEntity s)"
    and "pick_id s = Inl f \<Longrightarrow> INT_MAX - 100 < numEntity s"
proof -
  show "INT_MAX - 100 < numEntity s" if "pick_id s = Inl f"
    using that assms by (auto simp: pick_id_def Let_def ids_in_range_def split: if_splits)
  assume p: "pick_id s = Inr (i, s')"
  show "ids_in_range s' \<and> 0 \<le> i \<and> i < numEntity s'
      \<and> (numEntity s' = numEntity s \<or> numEntity s' = numEntity s + 1 \<and> i = numEntity s)"
  proof (cases "freeIds s = []")
    case True
    note c = pick_id_counter[OF p True]
    have "numEntity s' \<le> int (length (entityComponentSignatures s'))"
      using p True assms
      by (auto simp: pick_id_def Let_def vector_resize_def ids_in_range_def split: if_splits)
    then show ?thesis using assms pick_id_frame[OF p] c
      by (auto simp: ids_in_range_def intro: below_mono)
  next
    case False
    note q = pick_id_queue[OF p False]
    show ?thesis using assms pick_id_frame[OF p] False q
      by (cases "freeIds s") (auto simp: ids_in_range_def)
  qed
qed

lemma CreateEntity_ids_in_range:
  assumes "ids_in_range r"
  shows "(\<exists>f. CreateEntity r = Some (Inl f) \<and> INT_MAX - 100 < numEntity r)
     \<or> (\<exists>entity r'. CreateEntity r = Some (Inr (entity, r')) \<and> ids_in_range r'
          \<and> in_signatures entity r' \<and> numEntity r \<le> numEntity r'
          \<and> numEntity r' \<le> numEntity r + 1)"
proof -
  define J where "J s \<longleftrightarrow> ids_in_range s \<and> numEntity s = numEntity r" for s :: "'a Registry"
  define I where "I i s \<longleftrightarrow> ids_in_range s \<and> 0 \<le> i \<and> i < numEntity s
      \<and> below (numEntity r) (activeEntityIds s) \<and> below (numEntity r) (entitiesToBeKilled s)
      \<and> (numEntity s = numEntity r \<or> numEntity s = numEntity r + 1 \<and> i = numEntity r)"
    for i and s :: "'a Registry"
  have JI: "I i s'" if "J s" "pick_id s = Inr (i, s')" for s i s'
    using that pick_id_in_range(1)[of s i s'] pick_id_frame[OF that(2)]
    by (auto simp: J_def I_def ids_in_range_def)
  have JF: "INT_MAX - 100 < numEntity r" if "J s" "pick_id s = Inl f" for s f
    using that pick_id_in_range(2)[of s f] by (auto simp: J_def)
  have IJ: "J s" if "I i s" "i \<in> set (activeEntityIds s) \<union> set (entitiesToBeKilled s)" for i s
    using that by (auto simp: J_def I_def dest: below_mem)
  have "(\<exists>f. CreateEntity r = Some (Inl f) \<and> INT_MAX - 100 < numEntity r)
     \<or> (\<exists>entity r1. CreateEntity r = Some (Inr (entity, mark_active entity r1))
          \<and> I entity r1 \<and> entity \<notin> set (activeEntityIds r1)
          \<and> entity \<notin> set (entitiesToBeKilled r1))"
  proof (rule CreateEntity_rule[where J = J and I = I])
    show "J r" using assms by (simp add: J_def)
  next
    fix i s assume "I i s" "i \<notin> set (activeEntityIds s)" "i \<in> set (entitiesToBeKilled s)"
    then have "J s" using IJ by blast
    then show "J (s\<lparr>console := console s @ [retry_message i]\<rparr>)" by (simp add: J_def)
  qed (use JI JF IJ in blast)+
  then show ?thesis
    by (auto simp: I_def mark_active_def ids_in_range_def in_signatures_def)
qed

lemma pick_id_staged_apart:
  assumes "staged_apart s" "pick_id s = Inr (i, s')"
  shows "staged_apart s' \<and> i \<notin> set (freeIds s')"
proof (cases "freeIds s = []")
  case True
  then show ?thesis using assms(1) pick_id_frame[OF assms(2)] pick_id_counter[OF assms(2) True]
    by (auto simp: staged_apart_def)
next
  case False
  then show ?thesis using assms(1) pick_id_frame[OF assms(2)] pick_id_queue[OF assms(2) False]
    by (cases "freeIds s") (auto simp: staged_apart_def)
qed

lemma CreateEntity_staged_apart:
  assumes "staged_apart r" "CreateEntity r = Some (Inr (entity, r'))"
  shows "staged_apart r'"
proof -
  have "(\<exists>f. CreateEntity r = Some (Inl f) \<and> True)
     \<or> (\<exists>entity r1. CreateEntity r = Some (Inr (entity, mark_active entity r1))
     \<and> (staged_apart r1 \<and> entity \<notin> set (freeIds r1))
     \<and> entity \<notin> set (activeEntityIds r1) \<and> entity \<notin> set (entitiesToBeKilled r1))"
  proof (rule CreateEntity_rule[where J = staged_apart
        and I = "\<lambda>i s. staged_apart s \<and> i \<notin> set (freeIds s)" and F = "\<lambda>f. True"])
    show "staged_apart r" by (rule assms)
  next
    fix s i s' assume "staged_apart s" "pick_id s = Inr (i, s')"
    then show "staged_apart s' \<and> i \<notin> set (freeIds s')" by (rule pick_id_staged_apart)
  next
    fix i s i' s'
    assume "staged_apart s \<and> i \<notin> set (freeIds s)" "pick_id s = Inr (i', s')"
    then show "staged_apart s' \<and> i' \<notin> set (freeIds s')"
      using pick_id_staged_apart by blast
  next
    fix i s assume "staged_apart s \<and> i \<notin> set (freeIds s)"
    then show "staged_apart (s\<lparr>console := console s @ [retry_message i]\<rparr>)"
      by (simp add: staged_apart_def)
  qed simp_all
  then show ?thesis using assms(2)
    by (auto simp: mark_active_def staged_apart_def)
qed

lemma CreateEntity_std_sets:
  assumes "std_sets r" "CreateEntity r = Some (Inr (entity, r'))"
  shows "std_sets r'"
  using CreateEntity_Inr[OF assms(2)] assms(1)
  by (auto simp: std_sets_def strict_set_insert)

lemma exec_CreateEntity:
  "exec Call_CreateEntity r = Inr r' \<longleftrightarrow> (\<exists>entity. CreateEntity r = Some (Inr (entity, r')))"
  by (auto split: option.splits sum.splits)

lemma exec_ids_in_range:
  assumes "ids_in_range r" "exec c r = Inr r'"
  shows "ids_in_range r'"
proof (cases c)
  case Call_CreateEntity
  then show ?thesis using CreateEntity_ids_in_range[OF assms(1)] assms(2)
    by (auto simp: exec_CreateEntity)
next
  case (Call_KillEntity e)
  show ?thesis
  proof (cases "e \<in> set (activeEntityIds r)")
    case True
    show ?thesis using assms(1) True
      by (subst KillEntity_eq(1)[OF assms(2)[unfolded Call_KillEntity exec.simps] True])
         (auto simp: ids_in_range_def dest: below_mem)
  next
    case False
    then show ?thesis using assms Call_KillEntity by (auto simp: KillEntity_def ids_in_range_def)
  qed
next
  case Call_Update
  then show ?thesis using assms(1)
    by (subst Update_eq[OF assms(2)[unfolded Call_Update exec.simps]])
       (auto simp: ids_in_range_def intro: below_filter)
next
  case Call_ClearAllEntities
  then show ?thesis using assms(1)
    by (subst ClearAllEntities_eq[OF assms(2)[unfolded Call_ClearAllEntities exec.simps]])
       (auto simp: ids_in_range_def)
next
  case (Call_AddComponent x51 x52 x53 x54)
  then show ?thesis using assms AddComponent_eq[of x51 x52 x53 x54 r r']
    by (auto simp: ids_in_range_def)
next
  case (Call_RemoveComponent x61 x62)
  then show ?thesis using assms RemoveComponent_eq[of x61 x62 r r']
    by (auto simp: ids_in_range_def)
next
  case (Call_AddSystem x71 x72)
  then show ?thesis using assms AddSystem_eq[of x71 x72 r]
    by (auto simp: ids_in_range_def)
next
  case (Call_RemoveSystem x8)
  then show ?thesis using assms RemoveSystem_eq[of x8 r r']
    by (auto simp: ids_in_range_def)
qed

lemma exec_counter:
  assumes "ids_in_range r" "exec c r = Inr r'"
  shows "numEntity r \<le> numEntity r' \<and> numEntity r' \<le> numEntity r + 1"
proof (cases c)
  case Call_CreateEntity
  then show ?thesis using CreateEntity_ids_in_range[OF assms(1)] assms(2)
    by (auto simp: exec_CreateEntity)
next
  case (Call_KillEntity e)
  show ?thesis
  proof (cases "e \<in> set (activeEntityIds r)")
    case True
    show ?thesis
      by (subst (1 2) KillEntity_eq(1)[OF assms(2)[unfolded Call_KillEntity exec.simps] True]) simp
  next
    case False
    then show ?thesis using assms Call_KillEntity by (auto simp: KillEntity_def)
  qed
next
  case Call_Update
  then show ?thesis
    by (subst (1 2) Update_eq[OF assms(2)[unfolded Call_Update exec.simps]]) simp
next
  case Call_ClearAllEntities
  then show ?thesis
    by (subst (1 2) ClearAllEntities_eq[OF assms(2)[unfolded Call_ClearAllEntities exec.simps]]) simp
next
  case (Call_AddComponent x51 x52 x53 x54)
  then show ?thesis using assms AddComponent_eq[of x51 x52 x53 x54 r r'] by auto
next
  case (Call_RemoveComponent x61 x62)
  then show ?thesis using assms RemoveComponent_eq[of x61 x62 r r'] by auto
next
  case (Call_AddSystem x71 x72)
  then show ?thesis using assms AddSystem_eq[of x71 x72 r] by auto
next
  case (Call_RemoveSystem x8)
  then show ?thesis using assms RemoveSystem_eq[of x8 r r'] by auto
qed

lemma exec_std_sets:
  assumes "std_sets r" "exec c r = Inr r'"
  shows "std_sets r'"
proof (cases c)
  case Call_CreateEntity
  then show ?thesis using CreateEntity_std_sets[OF assms(1)] assms(2)
    by (auto split: option.splits sum.splits)
next
  case (Call_KillEntity e)
  show ?thesis
  proof (cases "e \<in> set (activeEntityIds r)")
    case True
    show ?thesis using assms(1) True
      by (subst KillEntity_eq(1)[OF assms(2)[unfolded Call_KillEntity exec.simps] True])
         (auto simp: std_sets_def strict_set_insert)
  next
    case False
    then show ?thesis using assms Call_KillEntity by (auto simp: KillEntity_def std_sets_def)
  qed
next
  case Call_Update
  then show ?thesis using assms(1)
    by (subst Update_eq[OF assms(2)[unfolded Call_Update exec.simps]])
       (auto simp: std_sets_def sorted_wrt_filter)
next
  case Call_ClearAllEntities
  then show ?thesis using assms(1)
    by (subst ClearAllEntities_eq[OF assms(2)[unfolded Call_ClearAllEntities exec.simps]])
       (auto simp: std_sets_def)
next
  case (Call_AddComponent x51 x52 x53 x54)
  then show ?thesis using assms AddComponent_eq[of x51 x52 x53 x54 r r']
    by (auto simp: std_sets_def)
next
  case (Call_RemoveComponent x61 x62)
  then show ?thesis using assms RemoveComponent_eq[of x61 x62 r r']
    by (auto simp: std_sets_def)
next
  case (Call_AddSystem x71 x72)
  then show ?thesis using assms AddSystem_eq[of x71 x72 r]
    by (auto simp: std_sets_def)
next
  case (Call_RemoveSystem x8)
  then show ?thesis using assms RemoveSystem_eq[of x8 r r']
    by (auto simp: std_sets_def)
qed

lemma exec_staged_apart:
  assumes "staged_apart r" "std_sets r" "exec c r = Inr r'"
    "c = Call_ClearAllEntities \<longrightarrow> entitiesToBeKilled r = []"
  shows "staged_apart r'"
proof (cases c)
  case Call_CreateEntity
  then show ?thesis using CreateEntity_staged_apart[OF assms(1)] assms(3)
    by (auto split: option.splits sum.splits)
next
  case (Call_KillEntity e)
  show ?thesis
  proof (cases "e \<in> set (activeEntityIds r)")
    case True
    show ?thesis using assms(1) True
      by (subst KillEntity_eq(1)[OF assms(3)[unfolded Call_KillEntity exec.simps] True])
         (auto simp: staged_apart_def)
  next
    case False
    then show ?thesis using assms Call_KillEntity by (auto simp: KillEntity_def staged_apart_def)
  qed
next
  case Call_Update
  have "distinct (entitiesToBeKilled r)" using assms(2) by (simp add: std_sets_def strict_sorted_iff)
  then show ?thesis using assms(1)
    by (subst Update_eq[OF assms(3)[unfolded Call_Update exec.simps]])
       (auto simp: staged_apart_def)
next
  case Call_ClearAllEntities
  have "distinct (activeEntityIds r)" using assms(2) by (simp add: std_sets_def strict_sorted_iff)
  then show ?thesis using assms(1,4) Call_ClearAllEntities
    by (subst ClearAllEntities_eq[OF assms(3)[unfolded Call_ClearAllEntities exec.simps]])
       (auto simp: staged_apart_def)
next
  case (Call_AddComponent x51 x52 x53 x54)
  then show ?thesis using assms AddComponent_eq[of x51 x52 x53 x54 r r']
    by (auto simp: staged_apart_def)
next
  case (Call_RemoveComponent x61 x62)
  then show ?thesis using assms RemoveComponent_eq[of x61 x62 r r']
    by (auto simp: staged_apart_def)
next
  case (Call_AddSystem x71 x72)
  then show ?thesis using assms AddSystem_eq[of x71 x72 r]
    by (auto simp: staged_apart_def)
next
  case (Call_RemoveSystem x8)
  then show ?thesis using assms RemoveSystem_eq[of x8 r r']
    by (auto simp: staged_apart_def)
qed

lemma run_invariants:
  assumes "ids_in_range r" "std_sets r" "run cs r = Inr r'"
  shows "ids_in_range r' \<and> std_sets r'"
  using assms
proof (induction cs arbitrary: r)
  case Nil
  then show ?case by simp
next
  case (Cons c cs)
  then obtain r1 where "exec c r = Inr r1" "run cs r1 = Inr r'" by (auto split: sum.splits)
  then show ?case using Cons.IH[of r1] Cons.prems exec_ids_in_range exec_std_sets by blast
qed

lemma run_counter:
  assumes "ids_in_range r" "run cs r = Inr r'"
  shows "numEntity r' \<le> numEntity r + int (length cs)"
  using assms
proof (induction cs arbitrary: r)
  case Nil
  then show ?case by simp
next
  case (Cons c cs)
  then obtain r1 where e: "exec c r = Inr r1" "run cs r1 = Inr r'" by (auto split: sum.splits)
  have "ids_in_range r1" using exec_ids_in_range[OF Cons.prems(1) e(1)] .
  from Cons.IH[OF this e(2)] exec_counter[OF Cons.prems(1) e(1)] show ?case by simp
qed

lemma ids_in_range_in_signatures:
  assumes "ids_in_range r"
    "x \<in> set (activeEntityIds r) \<union> set (entitiesToBeKilled r) \<union> set (entitiesToBeAdded r)"
  shows "in_signatures x r"
  using assms by (auto simp: ids_in_range_def in_signatures_def dest: below_mem)

lemma exec_lifecycle_ok:
  assumes "ids_in_range r" "lifecycle c" "numEntity r \<le> INT_MAX - 100"
  shows "\<exists>r'. exec c r = Inr r'"
proof (cases c)
  case Call_CreateEntity
  then show ?thesis using CreateEntity_ids_in_range[OF assms(1)] assms(3)
    by (auto simp: exec_CreateEntity)
next
  case (Call_KillEntity e)
  then show ?thesis
    using KillEntity_ok[of e r] ids_in_range_in_signatures[OF assms(1), of e] by auto
next
  case Call_Update
  then show ?thesis
    using Update_ok[of r] ids_in_range_in_signatures[OF assms(1)] by auto
next
  case Call_ClearAllEntities
  then show ?thesis
    using ClearAllEntities_ok[of r] ids_in_range_in_signatures[OF assms(1)] by auto
qed (use assms(2) in auto)

lemma run_lifecycle_ok:
  assumes "ids_in_range r" "list_all lifecycle cs" "numEntity r + int (length cs) \<le> INT_MAX - 100"
  shows "\<exists>r'. run cs r = Inr r'"
  using assms
proof (induction cs arbitrary: r)
  case Nil
  then show ?case by simp
next
  case (Cons c cs)
  then obtain r1 where e: "exec c r = Inr r1" using exec_lifecycle_ok[of r c] by auto
  have "ids_in_range r1" using exec_ids_in_range[OF Cons.prems(1) e] .
  moreover have "numEntity r1 + int (length cs) \<le> INT_MAX - 100"
    using exec_counter[OF Cons.prems(1) e] Cons.prems(3) by simp
  ultimately show ?case using Cons.IH[of r1] Cons.prems(2) e by auto
qed

lemma run_staged_apart:
  assumes "staged_apart r" "std_sets r" "run cs r = Inr r'" "clear_only_when_idle cs r"
  shows "staged_apart r'"
  using assms
proof (induction cs arbitrary: r)
  case Nil
  then show ?case by simp
next
  case (Cons c cs)
  then obtain r1 where e: "exec c r = Inr r1" "run cs r1 = Inr r'" by (auto split: sum.splits)
  have i: "c = Call_ClearAllEntities \<longrightarrow> entitiesToBeKilled r = []"
    and j: "clear_only_when_idle cs r1"
    using Cons.prems(4) e(1) by (auto split: if_splits)
  show ?case
    using Cons.IH[OF exec_staged_apart[OF Cons.prems(1,2) e(1) i]
        exec_std_sets[OF Cons.prems(2) e(1)] e(2) j] .
qed

lemma Registry_new_invariants:
  "ids_in_range Registry_new" "std_sets Registry_new" "staged_apart Registry_new"
  by (simp_all add: Registry_new_def ids_in_range_def std_sets_def staged_apart_def)

lemma exec_keeps_killed:
  assumes "exec c r = Inr r'" "c \<noteq> Call_Update" "entity \<in> set (entitiesToBeKilled r)"
  shows "entity \<in> set (entitiesToBeKilled r')"
proof (cases c)
  case Call_CreateEntity
  then obtain e where "CreateEntity r = Some (Inr (e, r'))"
    using assms by (auto split: option.splits sum.splits)
  then show ?thesis using assms CreateEntity_Inr(5)[of r e r'] by simp
next
  case (Call_KillEntity e)
  show ?thesis
  proof (cases "e \<in> set (activeEntityIds r)")
    case True
    show ?thesis using assms(3)
      by (subst KillEntity_eq(1)[OF assms(1)[unfolded Call_KillEntity exec.simps] True]) simp
  next
    case False
    then show ?thesis using assms Call_KillEntity by (auto simp: KillEntity_def)
  qed
next
  case Call_Update
  then show ?thesis using assms by simp
next
  case Call_ClearAllEntities
  then show ?thesis using assms(3)
    by (subst ClearAllEntities_eq[OF assms(1)[unfolded Call_ClearAllEntities exec.simps]]) simp
next
  case (Call_AddComponent x51 x52 x53 x54)
  then show ?thesis using assms AddComponent_eq[of x51 x52 x53 x54 r r'] by auto
next
  case (Call_RemoveComponent x61 x62)
  then show ?thesis using assms RemoveComponent_eq[of x61 x62 r r'] by auto
next
  case (Call_AddSystem x71 x72)
  then show ?thesis using assms AddSystem_eq[of x71 x72 r] by auto
next
  case (Call_RemoveSystem x8)
  then show ?thesis using assms RemoveSystem_eq[of x8 r r'] by auto
qed

lemma run_keeps_killed:
  assumes "run cs r = Inr r'" "Call_Update \<notin> set cs" "entity \<in> set (entitiesToBeKilled r)"
  shows "entity \<in> set (entitiesToBeKilled r')"
  using assms
proof (induction cs arbitrary: r)
  case Nil
  then show ?case by simp
next
  case (Cons c cs)
  then obtain r1 where "exec c r = Inr r1" "run cs r1 = Inr r'" by (auto split: sum.splits)
  then show ?case using Cons.IH[of r1] Cons.prems exec_keeps_killed[of c r r1 entity] by auto
qed

lemma AddSystem_keys:
  "distinct (map fst (systems r)) \<Longrightarrow> distinct (map fst (systems (AddSystem t s r)))"
  by (auto simp: AddSystem_def map_of_eq_None_iff)

lemma RemoveSystem_keys:
  "distinct (map fst (systems r)) \<Longrightarrow> RemoveSystem t r = Inr r'
     \<Longrightarrow> distinct (map fst (systems r'))"
  by (auto simp: RemoveSystem_def distinct_map_filter split: option.splits)

lemma exec_keys:
  assumes "distinct (map fst (systems r))" "exec c r = Inr r'"
  shows "distinct (map fst (systems r'))"
proof (cases c)
  case Call_CreateEntity
  then obtain e where "CreateEntity r = Some (Inr (e, r'))"
    using assms by (auto split: option.splits sum.splits)
  then show ?thesis using assms CreateEntity_Inr(6)[of r e r'] by simp
next
  case (Call_KillEntity e)
  show ?thesis
  proof (cases "e \<in> set (activeEntityIds r)")
    case True
    show ?thesis using assms(1)
      by (subst KillEntity_eq(1)[OF assms(2)[unfolded Call_KillEntity exec.simps] True]) simp
  next
    case False
    then show ?thesis using assms Call_KillEntity by (auto simp: KillEntity_def)
  qed
next
  case Call_Update
  then show ?thesis using assms(1)
    by (subst Update_eq[OF assms(2)[unfolded Call_Update exec.simps]]) simp
next
  case Call_ClearAllEntities
  then show ?thesis using assms(1)
    by (subst ClearAllEntities_eq[OF assms(2)[unfolded Call_ClearAllEntities exec.simps]]) simp
next
  case (Call_AddComponent x51 x52 x53 x54)
  then show ?thesis using assms AddComponent_eq[of x51 x52 x53 x54 r r'] by auto
next
  case (Call_RemoveComponent x61 x62)
  then show ?thesis using assms RemoveComponent_eq[of x61 x62 r r'] by auto
next
  case (Call_AddSystem x71 x72)
  then show ?thesis using assms AddSystem_keys[of r x71 x72] by auto
next
  case (Call_RemoveSystem x8)
  then show ?thesis using assms RemoveSystem_keys[of r x8 r'] by auto
qed

lemma run_keys:
  assumes "distinct (map fst (systems r))" "run cs r = Inr r'"
  shows "distinct (map fst (systems r'))"
  using assms
proof (induction cs arbitrary: r)
  case Nil
  then show ?case by simp
next
  case (Cons c cs)
  then obtain r1 where "exec c r = Inr r1" "run cs r1 = Inr r'" by (auto split: sum.splits)
  then show ?case using Cons.IH[of r1] Cons.prems exec_keys[of r c r1] by auto
qed

section \<open>Concrete registries\<close>

lemma replicate_update_same [simp]: "(replicate n x)[i := x] = replicate n x"
  by (cases "i < n") (auto simp: list_eq_iff_nth_eq nth_list_update)

lemma unset_bit_0_1 [simp]: "unset_bit 0 (1 :: Signature) = 0"
  by (rule bit_eqI) (auto simp: bit_unset_bit_iff bit_1_iff)

lemmas eval_defs = pick_id_def INT_MAX_def Registry_new_def mark_active_def set_insert_def vector_resize_def
     KillEntity_def ClearAllEntities_def reset_signature_def RemoveEntityFromSystems_def in_signatures_def free_active_def retry_message_def
     Update_def free_killed_def AddEntityToSystems_def set_erase_def

lemmas eval_component_defs = AddComponent_def RemoveComponent_def HasComponent_def AddSystem_def
  Pool_new_def Pool_Resize_def Pool_GetSize_def Pool_Set_def to_unsigned_def bitset_set_def
  bitset_test_def MAX_COMPONENTS_def isInterested_def GetComponentSignature_def
  AddEntityToSystem_def RemoveEntityFromSystem_def RenderSystem_def

lemma run_one_entity: "run [Call_CreateEntity] Registry_new = Inr one_entity"
  by (simp add: CreateEntity.simps skip_active.simps eval_defs one_entity_def)

lemma run_killed_not_updated:
  "run [Call_CreateEntity, Call_KillEntity 0] Registry_new = Inr killed_not_updated"
  by (simp add: CreateEntity.simps skip_active.simps eval_defs killed_not_updated_def)

lemma run_reuse_after_update:
  "run [Call_CreateEntity, Call_KillEntity 0, Call_Update] Registry_new = Inr reuse_after_update"
  by (simp add: CreateEntity.simps skip_active.simps eval_defs reuse_after_update_def)

lemma run_cleared_while_staged:
  "run [Call_CreateEntity, Call_KillEntity 0, Call_ClearAllEntities] Registry_new
     = Inr cleared_while_staged"
  by (simp add: CreateEntity.simps skip_active.simps eval_defs cleared_while_staged_def)

lemma run_freed_twice:
  "run [Call_CreateEntity, Call_KillEntity 0, Call_ClearAllEntities, Call_Update, Call_CreateEntity]
     Registry_new = Inr freed_twice"
  by (simp add: CreateEntity.simps skip_active.simps eval_defs freed_twice_def)

lemma run_staged_for_render:
  "run [Call_AddSystem ''RenderSystem'' RenderSystem, Call_CreateEntity,
        Call_AddComponent 0 0 7 0] Registry_new = Inr staged_for_render"
  by (simp add: CreateEntity.simps skip_active.simps eval_defs eval_component_defs
        staged_for_render_def)

lemma Update_staged_for_render: "Update staged_for_render = Inr in_render_system"
  by (simp add: eval_defs eval_component_defs staged_for_render_def in_render_system_def)

lemma run_in_render_system:
  "run [Call_AddSystem ''RenderSystem'' RenderSystem, Call_CreateEntity,
        Call_AddComponent 0 0 7 0, Call_Update] Registry_new = Inr in_render_system"
  by (simp add: CreateEntity.simps skip_active.simps eval_defs eval_component_defs
        in_render_system_def)

lemma run_loop_and_retry:
  "run [Call_CreateEntity, Call_CreateEntity, Call_KillEntity 0, Call_ClearAllEntities,
        Call_Update, Call_CreateEntity, Call_CreateEntity, Call_KillEntity 1,
        Call_ClearAllEntities, Call_CreateEntity] Registry_new = Inr loop_and_retry"
  by (simp add: CreateEntity.simps skip_active.simps eval_defs loop_and_retry_def)

lemma run_killed_after_clear:
  "run [Call_CreateEntity, Call_CreateEntity, Call_KillEntity 0, Call_Update,
        Call_ClearAllEntities, Call_CreateEntity, Call_KillEntity 0] Registry_new
     = Inr killed_after_clear"
  by (simp add: CreateEntity.simps skip_active.simps eval_defs killed_after_clear_def)

lemma idle_killed_after_clear:
  "clear_only_when_idle [Call_CreateEntity, Call_CreateEntity, Call_KillEntity 0, Call_Update,
        Call_ClearAllEntities, Call_CreateEntity, Call_KillEntity 0] (Registry_new :: unit Registry)"
  by (simp add: CreateEntity.simps skip_active.simps eval_defs)

lemma KillEntity_in_render_system: "KillEntity 0 in_render_system = Inr killed_in_render_system"
  by (simp add: in_render_system_def killed_in_render_system_def eval_defs eval_component_defs)

lemma Update_killed_in_render_system: "Update killed_in_render_system = Inr updated_render"
  by (simp add: killed_in_render_system_def updated_render_def eval_defs eval_component_defs)

lemma run_cleared_render:
  "run [Call_ClearAllEntities] killed_in_render_system = Inr cleared_render"
  by (simp add: killed_in_render_system_def cleared_render_def eval_defs eval_component_defs)

text \<open>
  Where the counter ends: with an empty free queue and a full signature table of 2147483600
  entries, \<open>entityId + 100\<close> is beyond \<open>INT_MAX\<close>.
\<close>

lemma CreateEntity_at_int_limit:
  assumes "freeIds r = []" "numEntity r = 2147483600"
    "length (entityComponentSignatures r) = 2147483600"
  shows "CreateEntity r = Some (Inl UndefinedBehaviour)"
  using assms by (subst CreateEntity.simps) (simp add: pick_id_def INT_MAX_def)

section \<open>Claims\<close>

text \<open>
  C1, as stated, fails in both directions. A component added after the entity's first
  \<open>Update\<close> makes the signature match, and the next \<open>Update\<close> does not put the entity into
  the system; a component removed after it leaves the entity in the system.
\<close>

theorem Update_membership_counterexample:
  "run [Call_AddSystem ''RenderSystem'' RenderSystem, Call_CreateEntity, Call_Update,
        Call_AddComponent 0 0 7 0, Call_Update] Registry_new = Inr late_component
   \<and> activeEntityIds late_component = [0]
   \<and> HasComponent 0 0 late_component = Inr True
   \<and> map_of (systems late_component) ''RenderSystem''
        = Some \<lparr>componentSignature = 1, entities = []\<rparr>
   \<and> isInterested (entityComponentSignatures late_component ! 0) 1
   \<and> run [Call_AddSystem ''RenderSystem'' RenderSystem, Call_CreateEntity,
          Call_AddComponent 0 0 7 0, Call_Update, Call_RemoveComponent 0 0, Call_Update]
        Registry_new = Inr removed_component
   \<and> activeEntityIds removed_component = [0]
   \<and> HasComponent 0 0 removed_component = Inr False
   \<and> map_of (systems removed_component) ''RenderSystem''
        = Some \<lparr>componentSignature = 1, entities = [0]\<rparr>
   \<and> \<not> isInterested (entityComponentSignatures removed_component ! 0) 1"
  by (simp add: CreateEntity.simps skip_active.simps eval_defs eval_component_defs
        late_component_def removed_component_def)

text \<open>
  C1, amended. After \<open>Update\<close>, an active entity is in the list of a registered system if
  and only if it was in that list before the call, or it was staged to be added and its
  signature contains the signature of the system. \<open>Update\<close> adds the entities of
  \<open>entitiesToBeAdded\<close> only; it keeps the systems and their signatures.
\<close>

theorem Update_membership:
  assumes "Update r = Inr r'" "map_of (systems r') t = Some s'"
    "entity \<in> set (activeEntityIds r')"
  shows "\<exists>s. map_of (systems r) t = Some s
     \<and> GetComponentSignature s' = GetComponentSignature s
     \<and> (entity \<in> set (GetSystemEntities s') \<longleftrightarrow>
          entity \<in> set (GetSystemEntities s)
          \<or> entity \<in> set (entitiesToBeAdded r)
            \<and> isInterested (entityComponentSignatures r' ! nat entity) (GetComponentSignature s'))"
proof -
  note e = Update_eq[OF assms(1)]
  have nk: "entity \<notin> set (entitiesToBeKilled r)"
    using assms(3) by (subst (asm) e) simp
  have sg: "entityComponentSignatures r' ! nat entity = entityComponentSignatures r ! nat entity"
    if "entity \<in> set (entitiesToBeAdded r)"
  proof -
    have "0 \<le> entity" using Update_range[OF assms(1), of entity] that
      by (simp add: in_signatures_def)
    moreover have "\<forall>k\<in>set (entitiesToBeKilled r). 0 \<le> k"
      using Update_range[OF assms(1)] by (auto simp: in_signatures_def)
    ultimately show ?thesis
      using nk by (subst e) (simp add: reset_all_nth)
  qed
  from assms(2) obtain s where s: "map_of (systems r) t = Some s"
    and s': "s' = s\<lparr>entities := filter (\<lambda>x. x \<notin> set (entitiesToBeKilled r))
        (entities s @ filter (\<lambda>e. isInterested (entityComponentSignatures r ! nat e)
           (componentSignature s)) (entitiesToBeAdded r))\<rparr>"
    by (subst (asm) e) (auto simp: map_of_drop_from_systems map_of_stage_into_systems)
  show ?thesis
    using s nk sg by (auto simp: s' GetComponentSignature_def GetSystemEntities_def)
qed

theorem Update_membership_witness:
  "run [Call_AddSystem ''RenderSystem'' RenderSystem, Call_CreateEntity,
        Call_AddComponent 0 0 7 0] Registry_new = Inr staged_for_render
   \<and> Update staged_for_render = Inr in_render_system
   \<and> map_of (systems in_render_system) ''RenderSystem''
        = Some \<lparr>componentSignature = 1, entities = [0]\<rparr>
   \<and> 0 \<in> set (activeEntityIds in_render_system)
   \<and> map_of (systems staged_for_render) ''RenderSystem''
        = Some \<lparr>componentSignature = 1, entities = []\<rparr>
   \<and> 0 \<in> set (entitiesToBeAdded staged_for_render)
   \<and> isInterested (entityComponentSignatures in_render_system ! nat 0) 1
   \<and> (\<exists>s. map_of (systems staged_for_render) ''RenderSystem'' = Some s
     \<and> GetComponentSignature \<lparr>componentSignature = 1, entities = [0]\<rparr> = GetComponentSignature s
     \<and> (0 \<in> set (GetSystemEntities \<lparr>componentSignature = 1, entities = [0]\<rparr>) \<longleftrightarrow>
          0 \<in> set (GetSystemEntities s)
          \<or> 0 \<in> set (entitiesToBeAdded staged_for_render)
            \<and> isInterested (entityComponentSignatures in_render_system ! nat 0)
                 (GetComponentSignature \<lparr>componentSignature = 1, entities = [0]\<rparr>)))"
proof -
  have a: "map_of (systems in_render_system) ''RenderSystem''
        = Some \<lparr>componentSignature = 1, entities = [0]\<rparr>"
    "0 \<in> set (activeEntityIds in_render_system)"
    by (simp_all add: in_render_system_def)
  have b: "map_of (systems staged_for_render) ''RenderSystem''
        = Some \<lparr>componentSignature = 1, entities = []\<rparr>
   \<and> 0 \<in> set (entitiesToBeAdded staged_for_render)
   \<and> isInterested (entityComponentSignatures in_render_system ! nat 0) 1"
    by (simp add: staged_for_render_def in_render_system_def isInterested_def)
  show ?thesis
    using Update_membership [OF Update_staged_for_render a] run_staged_for_render
      Update_staged_for_render a b
    by blast
qed

text \<open>
  C2, as stated, fails: on a registry without the system, \<open>RemoveSystem\<close> erases and
  \<open>GetSystem\<close> dereferences the \<open>end()\<close> iterator, with no check and no diagnostic.
\<close>

theorem missing_system_counterexample:
  "RemoveSystem ''RenderSystem'' (Registry_new :: unit Registry) = Inl UndefinedBehaviour
   \<and> GetSystem ''RenderSystem'' (Registry_new :: unit Registry) = Inl UndefinedBehaviour
   \<and> \<not> HasSystem ''RenderSystem'' (Registry_new :: unit Registry)"
  by (simp add: RemoveSystem_def GetSystem_def HasSystem_def Registry_new_def)

text \<open>
  C2, amended. \<open>KillEntity\<close> of an id that is not active writes one line to \<open>std::cerr\<close>
  and changes nothing else of the registry. \<open>RemoveSystem\<close> and \<open>GetSystem\<close> for a type that
  is not registered are undefined behaviour: \<open>HasSystem\<close> is the check a caller has.
\<close>

theorem misuse_outcomes:
  "(entity \<notin> set (activeEntityIds r)
      \<longrightarrow> KillEntity entity r = Inr (r\<lparr>console := console r @ [kill_message entity]\<rparr>))
   \<and> (\<not> HasSystem t r
      \<longrightarrow> RemoveSystem t r = Inl UndefinedBehaviour \<and> GetSystem t r = Inl UndefinedBehaviour)"
  by (simp add: KillEntity_def RemoveSystem_def GetSystem_def HasSystem_def)

theorem misuse_outcomes_witness:
  "5 \<notin> set (activeEntityIds in_render_system)
   \<and> KillEntity 5 in_render_system
       = Inr (in_render_system\<lparr>console := [Cout ''[Registry] Constructor is executed'',
                Cerr ''[ERROR] Attempting to kill non-existent entity: '' 5]\<rparr>)
   \<and> \<not> HasSystem ''AudioSystem'' in_render_system
   \<and> RemoveSystem ''AudioSystem'' in_render_system = Inl UndefinedBehaviour
   \<and> GetSystem ''AudioSystem'' in_render_system = Inl UndefinedBehaviour"
proof -
  have a: "5 \<notin> set (activeEntityIds in_render_system)
    \<and> \<not> HasSystem ''AudioSystem'' in_render_system
    \<and> console in_render_system = [Cout ''[Registry] Constructor is executed'']"
    by (simp add: in_render_system_def HasSystem_def)
  show ?thesis
    using misuse_outcomes [of 5 in_render_system "''AudioSystem''"] a
    by (simp add: kill_message_def)
qed

text \<open>
  C3. Every sequence of \<open>CreateEntity\<close>, \<open>KillEntity\<close>, \<open>Update\<close> and \<open>ClearAllEntities\<close>
  calls on a new registry that is short enough for the counter to stay 100 below \<open>INT_MAX\<close>
  runs to its end. In every state that a sequence of calls reaches, the active ids are
  pairwise different and \<open>CreateEntity\<close> returns; the id of the entity it returns was not
  active, whatever the free queue holds, and the active ids stay pairwise different; it
  does return an entity while the counter is 100 below \<open>INT_MAX\<close>.
\<close>

theorem active_ids_unique:
  "(list_all lifecycle cs \<and> int (length cs) \<le> INT_MAX - 100
      \<longrightarrow> (\<exists>r. run cs Registry_new = Inr r))
   \<and> (run cs Registry_new = Inr r \<longrightarrow>
        distinct (activeEntityIds r)
        \<and> CreateEntity r \<noteq> None
        \<and> (numEntity r \<le> INT_MAX - 100
             \<longrightarrow> (\<exists>entity r'. CreateEntity r = Some (Inr (entity, r'))))
        \<and> (\<forall>entity r'. CreateEntity r = Some (Inr (entity, r')) \<longrightarrow>
               entity \<notin> set (activeEntityIds r)
               \<and> set (activeEntityIds r') = insert entity (set (activeEntityIds r))
               \<and> distinct (activeEntityIds r')))"
proof (intro conjI impI allI)
  assume "list_all lifecycle cs \<and> int (length cs) \<le> INT_MAX - 100"
  then show "\<exists>r. run cs Registry_new = Inr r"
    using run_lifecycle_ok[OF Registry_new_invariants(1), of cs]
    by (simp add: Registry_new_def)
next
  assume a: "run cs Registry_new = Inr r"
  have i: "ids_in_range r" and s: "std_sets r"
    using run_invariants[OF Registry_new_invariants(1,2) a] by simp_all
  show "distinct (activeEntityIds r)"
    using s by (simp add: std_sets_def strict_sorted_iff)
  show "CreateEntity r \<noteq> None" by (rule CreateEntity_returns)
  show "\<exists>entity r'. CreateEntity r = Some (Inr (entity, r'))"
    if "numEntity r \<le> INT_MAX - 100"
    using CreateEntity_ids_in_range[OF i] that by auto
  fix entity r' assume c: "CreateEntity r = Some (Inr (entity, r'))"
  show "entity \<notin> set (activeEntityIds r)" by (rule CreateEntity_Inr(1)[OF c])
  show "set (activeEntityIds r') = insert entity (set (activeEntityIds r))"
    by (simp add: CreateEntity_Inr(3)[OF c])
  show "distinct (activeEntityIds r')"
    using CreateEntity_std_sets[OF s c] by (simp add: std_sets_def strict_sorted_iff)
qed

theorem active_ids_unique_witness:
  "list_all lifecycle
     [Call_CreateEntity, Call_KillEntity 0, Call_ClearAllEntities, Call_Update,
      Call_CreateEntity :: unit call]
   \<and> int (length [Call_CreateEntity, Call_KillEntity 0, Call_ClearAllEntities, Call_Update,
         Call_CreateEntity :: unit call]) \<le> INT_MAX - 100
   \<and> run [Call_CreateEntity, Call_KillEntity 0, Call_ClearAllEntities, Call_Update,
          Call_CreateEntity] Registry_new = Inr freed_twice
   \<and> freeIds freed_twice = [0] \<and> activeEntityIds freed_twice = [0]
   \<and> numEntity freed_twice \<le> INT_MAX - 100
   \<and> CreateEntity freed_twice
       = Some (Inr (1, mark_active 1 (freed_twice\<lparr>numEntity := 2, freeIds := []\<rparr>)))
   \<and> distinct (activeEntityIds freed_twice)
   \<and> 1 \<notin> set (activeEntityIds freed_twice)
   \<and> set (activeEntityIds (mark_active 1 (freed_twice\<lparr>numEntity := 2, freeIds := []\<rparr>)))
       = insert 1 (set (activeEntityIds freed_twice))
   \<and> distinct (activeEntityIds (mark_active 1 (freed_twice\<lparr>numEntity := 2, freeIds := []\<rparr>)))"
proof -
  have c: "CreateEntity freed_twice
       = Some (Inr (1, mark_active 1 (freed_twice\<lparr>numEntity := 2, freeIds := []\<rparr>)))"
    by (simp add: CreateEntity.simps skip_active.simps eval_defs freed_twice_def)
  have f: "freeIds freed_twice = [0] \<and> activeEntityIds freed_twice = [0]
      \<and> numEntity freed_twice \<le> INT_MAX - 100"
    by (simp add: freed_twice_def INT_MAX_def)
  have l: "list_all lifecycle
     [Call_CreateEntity, Call_KillEntity 0, Call_ClearAllEntities, Call_Update,
      Call_CreateEntity :: unit call]
   \<and> int (length [Call_CreateEntity, Call_KillEntity 0, Call_ClearAllEntities, Call_Update,
         Call_CreateEntity :: unit call]) \<le> INT_MAX - 100"
    by (simp add: INT_MAX_def)
  note t = active_ids_unique [of "[Call_CreateEntity, Call_KillEntity 0, Call_ClearAllEntities,
      Call_Update, Call_CreateEntity]" freed_twice]
  show ?thesis using t c f l run_freed_twice by blast
qed

text \<open>
  C4, as stated, fails: \<open>ClearAllEntities\<close> puts every active id into the free queue and
  leaves the set of entities to be killed as it is.
\<close>

theorem free_and_killed_counterexample:
  "run [Call_CreateEntity, Call_KillEntity 0, Call_ClearAllEntities] Registry_new
     = Inr cleared_while_staged
   \<and> freeIds cleared_while_staged = [0] \<and> entitiesToBeKilled cleared_while_staged = [0]"
  using run_cleared_while_staged by (simp add: cleared_while_staged_def)

text \<open>
  C4, amended. In every state that a sequence of calls reaches from a new registry, when
  each \<open>ClearAllEntities\<close> of the sequence ran with no entity staged to be killed, no id
  of the free queue is staged to be killed.
\<close>

theorem free_and_killed_apart:
  assumes "run cs Registry_new = Inr r" "clear_only_when_idle cs Registry_new"
  shows "set (freeIds r) \<inter> set (entitiesToBeKilled r) = {}"
proof -
  have "staged_apart r"
    using run_staged_apart[OF Registry_new_invariants(3,2) assms] .
  then show ?thesis by (auto simp: staged_apart_def)
qed

theorem free_and_killed_apart_witness:
  "run [Call_CreateEntity, Call_CreateEntity, Call_KillEntity 0, Call_Update,
        Call_ClearAllEntities, Call_CreateEntity, Call_KillEntity 0] Registry_new
     = Inr killed_after_clear
   \<and> clear_only_when_idle [Call_CreateEntity, Call_CreateEntity, Call_KillEntity 0, Call_Update,
        Call_ClearAllEntities, Call_CreateEntity, Call_KillEntity 0] (Registry_new :: unit Registry)
   \<and> freeIds killed_after_clear = [1] \<and> entitiesToBeKilled killed_after_clear = [0]
   \<and> set (freeIds killed_after_clear) \<inter> set (entitiesToBeKilled killed_after_clear) = {}"
proof -
  have "freeIds killed_after_clear = [1] \<and> entitiesToBeKilled killed_after_clear = [0]"
    by (simp add: killed_after_clear_def)
  then show ?thesis
    using free_and_killed_apart [OF run_killed_after_clear idle_killed_after_clear]
      run_killed_after_clear idle_killed_after_clear by blast
qed

text \<open>
  C5. For every registry and every active entity: after \<open>KillEntity\<close> of it, and whatever
  calls other than \<open>Update\<close> follow, \<open>CreateEntity\<close> returns, and the entity it returns has
  another id (it does return one in a state reached from a new registry with the counter
  100 below \<open>INT_MAX\<close>). After \<open>KillEntity\<close> and \<open>Update\<close> the id is in the free queue, not
  active, and nothing is staged to be killed; when the queue was empty and nothing else
  was staged before, the next \<open>CreateEntity\<close> returns the very id.
\<close>

theorem killed_id_reused_only_after_Update:
  "(entity \<in> set (activeEntityIds r) \<and> KillEntity entity r = Inr r1
      \<and> Call_Update \<notin> set cs \<and> run cs r1 = Inr r2
     \<longrightarrow> CreateEntity r2 \<noteq> None
       \<and> (\<forall>e r3. CreateEntity r2 = Some (Inr (e, r3)) \<longrightarrow> e \<noteq> entity)
       \<and> (run cs0 Registry_new = Inr r \<and> numEntity r2 \<le> INT_MAX - 100
            \<longrightarrow> (\<exists>e r3. CreateEntity r2 = Some (Inr (e, r3)) \<and> e \<noteq> entity)))
   \<and> (entity \<in> set (activeEntityIds r) \<and> KillEntity entity r = Inr r1
      \<and> Update r1 = Inr r4
     \<longrightarrow> entity \<in> set (freeIds r4) \<and> entity \<notin> set (activeEntityIds r4)
       \<and> entitiesToBeKilled r4 = []
       \<and> (freeIds r = [] \<and> entitiesToBeKilled r = []
            \<longrightarrow> (\<exists>r5. CreateEntity r4 = Some (Inr (entity, r5)))))"
proof (intro conjI impI)
  assume a: "entity \<in> set (activeEntityIds r) \<and> KillEntity entity r = Inr r1
      \<and> Call_Update \<notin> set cs \<and> run cs r1 = Inr r2"
  then have "entity \<in> set (entitiesToBeKilled r1)"
    using KillEntity_eq(1)[of entity r r1] by auto
  then have k: "entity \<in> set (entitiesToBeKilled r2)"
    using a run_keeps_killed[of cs r1 r2 entity] by simp
  show "CreateEntity r2 \<noteq> None" by (rule CreateEntity_returns)
  show n: "\<forall>e r3. CreateEntity r2 = Some (Inr (e, r3)) \<longrightarrow> e \<noteq> entity"
    using k CreateEntity_Inr(2) by blast
  assume b: "run cs0 Registry_new = Inr r \<and> numEntity r2 \<le> INT_MAX - 100"
  have "ids_in_range r"
    using run_invariants[OF Registry_new_invariants(1,2)] b by blast
  then have "ids_in_range r1"
    using a exec_ids_in_range[of r "Call_KillEntity entity" r1] by simp
  then have "ids_in_range r2"
    using a run_invariants[of r1 cs r2] exec_std_sets[of r "Call_KillEntity entity" r1]
      run_invariants[OF Registry_new_invariants(1,2), of cs0 r] b by simp
  then show "\<exists>e r3. CreateEntity r2 = Some (Inr (e, r3)) \<and> e \<noteq> entity"
    using CreateEntity_ids_in_range[of r2] b n by auto
next
  assume a: "entity \<in> set (activeEntityIds r) \<and> KillEntity entity r = Inr r1
      \<and> Update r1 = Inr r4"
  then have k: "KillEntity entity r = Inr r1" and u: "Update r1 = Inr r4"
    and m: "entity \<in> set (activeEntityIds r)" by simp_all
  note e1 = KillEntity_eq(1)[OF k m]
  note e4 = Update_eq[OF u]
  have k1: "entitiesToBeKilled r1 = set_insert entity (entitiesToBeKilled r)"
    and f1: "freeIds r1 = freeIds r"
    by (subst e1, simp)+
  have f4: "freeIds r4 = freeIds r1 @ entitiesToBeKilled r1"
    and a4: "activeEntityIds r4
        = filter (\<lambda>x. x \<notin> set (entitiesToBeKilled r1)) (activeEntityIds r1)"
    and k4: "entitiesToBeKilled r4 = []"
    by (subst e4, simp)+
  show "entity \<in> set (freeIds r4)" by (simp add: f4 k1)
  show na: "entity \<notin> set (activeEntityIds r4)" by (simp add: a4 k1)
  show "entitiesToBeKilled r4 = []" by (rule k4)
  assume "freeIds r = [] \<and> entitiesToBeKilled r = []"
  then have q: "freeIds r4 = [entity]" by (simp add: f4 f1 k1 set_insert_def)
  have p: "pick_id r4 = Inr (entity, r4\<lparr>freeIds := []\<rparr>)"
    by (simp add: pick_id_def q)
  have s: "skip_active entity (r4\<lparr>freeIds := []\<rparr>) = Some (Inr (entity, r4\<lparr>freeIds := []\<rparr>))"
    using na by (subst skip_active.simps) simp
  have "CreateEntity r4 = Some (Inr (entity, mark_active entity (r4\<lparr>freeIds := []\<rparr>)))"
    by (subst CreateEntity.simps) (simp add: p s k4)
  then show "\<exists>r5. CreateEntity r4 = Some (Inr (entity, r5))" by blast
qed

theorem killed_id_reused_only_after_Update_witness:
  "0 \<in> set (activeEntityIds in_render_system)
   \<and> KillEntity 0 in_render_system = Inr killed_in_render_system
   \<and> Call_Update \<notin> set [Call_ClearAllEntities :: nat call]
   \<and> run [Call_ClearAllEntities] killed_in_render_system = Inr cleared_render
   \<and> run [Call_AddSystem ''RenderSystem'' RenderSystem, Call_CreateEntity,
        Call_AddComponent 0 0 7 0, Call_Update] Registry_new = Inr in_render_system
   \<and> numEntity cleared_render \<le> INT_MAX - 100
   \<and> CreateEntity cleared_render
       = Some (Inr (1, mark_active 1 (cleared_render\<lparr>numEntity := 2, freeIds := [],
                  console := console cleared_render @ [retry_message 0]\<rparr>)))
   \<and> Update killed_in_render_system = Inr updated_render
   \<and> freeIds in_render_system = [] \<and> entitiesToBeKilled in_render_system = []
   \<and> 0 \<in> set (freeIds updated_render) \<and> 0 \<notin> set (activeEntityIds updated_render)
   \<and> entitiesToBeKilled updated_render = []
   \<and> CreateEntity updated_render
       = Some (Inr (0, mark_active 0 (updated_render\<lparr>freeIds := []\<rparr>)))
   \<and> (\<exists>e r3. CreateEntity cleared_render = Some (Inr (e, r3)) \<and> e \<noteq> 0)
   \<and> (\<exists>r5. CreateEntity updated_render = Some (Inr (0, r5)))"
proof -
  have a: "0 \<in> set (activeEntityIds in_render_system)
    \<and> freeIds in_render_system = [] \<and> entitiesToBeKilled in_render_system = []"
    by (simp add: in_render_system_def)
  have b: "Call_Update \<notin> set [Call_ClearAllEntities :: nat call]
    \<and> numEntity cleared_render \<le> INT_MAX - 100"
    by (simp add: cleared_render_def INT_MAX_def)
  have c: "CreateEntity cleared_render
       = Some (Inr (1, mark_active 1 (cleared_render\<lparr>numEntity := 2, freeIds := [],
                  console := console cleared_render @ [retry_message 0]\<rparr>)))"
    by (simp add: CreateEntity.simps skip_active.simps eval_defs cleared_render_def)
  have d: "CreateEntity updated_render
       = Some (Inr (0, mark_active 0 (updated_render\<lparr>freeIds := []\<rparr>)))"
    by (simp add: CreateEntity.simps skip_active.simps eval_defs updated_render_def)
  note t = killed_id_reused_only_after_Update [of 0 in_render_system killed_in_render_system
        "[Call_ClearAllEntities]" cleared_render
        "[Call_AddSystem ''RenderSystem'' RenderSystem, Call_CreateEntity,
          Call_AddComponent 0 0 7 0, Call_Update]" updated_render]
  have e: "(\<exists>e r3. CreateEntity cleared_render = Some (Inr (e, r3)) \<and> e \<noteq> 0)
    \<and> (\<exists>r5. CreateEntity updated_render = Some (Inr (0, r5)))
    \<and> 0 \<in> set (freeIds updated_render) \<and> 0 \<notin> set (activeEntityIds updated_render)
    \<and> entitiesToBeKilled updated_render = []"
    using t a b KillEntity_in_render_system run_cleared_render run_in_render_system
      Update_killed_in_render_system by blast
  show ?thesis
    using a b c d e KillEntity_in_render_system run_cleared_render run_in_render_system
      Update_killed_in_render_system by blast
qed

text \<open>
  C6. In every state that a sequence of calls on a new registry reaches, \<open>KillEntity\<close> of
  an active entity returns, and right after it the entity is in no system's list of
  entities and \<open>HasComponent\<close> is false for every component type.
\<close>

theorem KillEntity_isolates:
  assumes "run cs Registry_new = Inr r" "entity \<in> set (activeEntityIds r)"
  shows "\<exists>r'. KillEntity entity r = Inr r'
     \<and> (\<forall>t s. (t, s) \<in> set (systems r') \<longrightarrow> entity \<notin> set (GetSystemEntities s))
     \<and> map fst (systems r') = map fst (systems r)
     \<and> (\<forall>componentId. componentId < MAX_COMPONENTS
            \<longrightarrow> HasComponent componentId entity r' = Inr False)"
proof -
  have "ids_in_range r"
    using run_invariants[OF Registry_new_invariants(1,2) assms(1)] by simp
  then have i: "in_signatures entity r"
    using assms(2) by (auto simp: ids_in_range_def in_signatures_def dest: below_mem)
  then obtain r' where k: "KillEntity entity r = Inr r'"
    using KillEntity_ok[of entity r] by auto
  note e = KillEntity_eq(1)[OF k assms(2)]
  have "entity \<notin> set (GetSystemEntities s)" if "(t, s) \<in> set (systems r')" for t s
    using that drop_from_systems_absent[of t s "[entity]" "systems r" entity]
    by (subst (asm) e) (simp add: GetSystemEntities_def)
  moreover have "map fst (systems r') = map fst (systems r)"
    by (subst e) simp
  moreover have "HasComponent componentId entity r' = Inr False"
    if "componentId < MAX_COMPONENTS" for componentId
    using that i
    by (subst e) (simp add: HasComponent_def in_signatures_def bitset_test_def)
  ultimately show ?thesis using k by blast
qed

theorem KillEntity_isolates_witness:
  "run [Call_AddSystem ''RenderSystem'' RenderSystem, Call_CreateEntity,
        Call_AddComponent 0 0 7 0, Call_Update] Registry_new = Inr in_render_system
   \<and> 0 \<in> set (activeEntityIds in_render_system)
   \<and> systems in_render_system = [(''RenderSystem'', \<lparr>componentSignature = 1, entities = [0]\<rparr>)]
   \<and> HasComponent 0 0 in_render_system = Inr True
   \<and> KillEntity 0 in_render_system = Inr killed_in_render_system
   \<and> (\<exists>r'. KillEntity 0 in_render_system = Inr r'
     \<and> (\<forall>t s. (t, s) \<in> set (systems r') \<longrightarrow> 0 \<notin> set (GetSystemEntities s))
     \<and> map fst (systems r') = map fst (systems in_render_system)
     \<and> (\<forall>componentId. componentId < MAX_COMPONENTS
            \<longrightarrow> HasComponent componentId 0 r' = Inr False))"
proof -
  have a: "0 \<in> set (activeEntityIds in_render_system)"
    by (simp add: in_render_system_def)
  have b: "systems in_render_system = [(''RenderSystem'', \<lparr>componentSignature = 1, entities = [0]\<rparr>)]
   \<and> HasComponent 0 0 in_render_system = Inr True
   \<and> KillEntity 0 in_render_system = Inr killed_in_render_system"
    by (simp add: in_render_system_def killed_in_render_system_def eval_defs eval_component_defs)
  show ?thesis
    using KillEntity_isolates [OF run_in_render_system a] run_in_render_system a b by simp
qed

text \<open>
  C7, as stated, fails: \<open>Resize(1)\<close> of a pool of three entries leaves one entry.
\<close>

theorem Pool_Resize_counterexample:
  "Pool_Resize (0 :: nat) 1 [5, 6, 7] = Inr [5]"
  by (simp add: Pool_Resize_def vector_resize_def)

text \<open>
  C7, amended. \<open>Resize(n)\<close> with \<open>n \<ge> 0\<close> makes the size of the pool exactly \<open>n\<close>: the
  first \<open>n\<close> entries are kept and new slots are value-initialised, so every entry is kept
  when \<open>n\<close> is at least the size before; a negative \<open>n\<close> throws \<open>std::length_error\<close>.
\<close>

theorem Pool_Resize_exact:
  "(n < 0 \<longrightarrow> Pool_Resize d n data = Inl LengthError)
   \<and> (0 \<le> n \<longrightarrow> Pool_Resize d n data = Inr (take (nat n) data @ replicate (nat n - length data) d)
        \<and> length (take (nat n) data @ replicate (nat n - length data) d) = nat n)
   \<and> (int (length data) \<le> n \<longrightarrow> Pool_Resize d n data = Inr (data @ replicate (nat n - length data) d))"
  by (auto simp: Pool_Resize_def vector_resize_def)

theorem Pool_Resize_exact_witness:
  "(0 :: int) \<le> 5 \<and> int (length [5, 6, 7 :: nat]) \<le> 5 \<and> \<not> (5 :: int) < 0
   \<and> Pool_Resize (0 :: nat) 5 [5, 6, 7] = Inr [5, 6, 7, 0, 0]
   \<and> Pool_Resize (0 :: nat) (- 1) [5, 6, 7] = Inl LengthError"
  using Pool_Resize_exact [of 5 "0 :: nat" "[5, 6, 7]"] Pool_Resize_exact [of "- 1" "0 :: nat" "[5, 6, 7]"]
  by (simp add: numeral_eq_Suc)

text \<open>
  C8. In every state that a sequence of calls on a new registry reaches, the \<open>while\<close> loop of
  \<open>CreateEntity\<close> returns from every id it may start with, and \<open>CreateEntity\<close> with its
  recursive retries returns. While the counter is 100 below \<open>INT_MAX\<close>, the loop ends with an
  id that is not active, and \<open>CreateEntity\<close> returns an entity whose id was neither active
  nor staged to be killed, is active afterwards and lies inside the signature table.
\<close>

theorem CreateEntity_terminates:
  assumes "run cs Registry_new = Inr r"
  shows "(\<forall>entityId. skip_active entityId r \<noteq> None) \<and> CreateEntity r \<noteq> None
     \<and> (numEntity r \<le> INT_MAX - 100 \<longrightarrow>
          (\<forall>entityId. \<exists>entityId' r'. skip_active entityId r = Some (Inr (entityId', r'))
              \<and> entityId' \<notin> set (activeEntityIds r'))
          \<and> (\<exists>entity r'. CreateEntity r = Some (Inr (entity, r'))
              \<and> entity \<notin> set (activeEntityIds r) \<and> entity \<notin> set (entitiesToBeKilled r)
              \<and> entity \<in> set (activeEntityIds r') \<and> in_signatures entity r'))"
proof (intro conjI impI allI)
  have i: "ids_in_range r"
    using run_invariants[OF Registry_new_invariants(1,2) assms] by simp
  show "skip_active entityId r \<noteq> None" for entityId by (rule skip_active_returns)
  show "CreateEntity r \<noteq> None" by (rule CreateEntity_returns)
  assume b: "numEntity r \<le> INT_MAX - 100"
  show "\<exists>entityId' r'. skip_active entityId r = Some (Inr (entityId', r'))
      \<and> entityId' \<notin> set (activeEntityIds r')" for entityId
  proof -
    define I where "I i s \<longleftrightarrow> ids_in_range s \<and> below (numEntity r) (activeEntityIds s)
        \<and> (numEntity s = numEntity r \<or> i = numEntity r)" for i and s :: "'a Registry"
    have "(\<exists>f. skip_active entityId r = Some (Inl f) \<and> False)
       \<or> (\<exists>entityId' r'. skip_active entityId r = Some (Inr (entityId', r'))
            \<and> I entityId' r' \<and> entityId' \<notin> set (activeEntityIds r')
            \<and> loop_bound entityId' r' \<le> loop_bound entityId r)"
    proof (rule skip_active_rule[where I = I])
      show "I entityId r" using i by (simp add: I_def ids_in_range_def)
    next
      fix j s j' s'
      assume "I j s" "j \<in> set (activeEntityIds s)" and p: "pick_id s = Inr (j', s')"
      then have "ids_in_range s" "numEntity s = numEntity r"
        "below (numEntity r) (activeEntityIds s)"
        by (auto simp: I_def dest: below_mem)
      then show "I j' s'"
        using pick_id_in_range(1)[of s j' s'] p pick_id_frame(1)[OF p] by (auto simp: I_def)
    next
      fix j s f
      assume "I j s" "j \<in> set (activeEntityIds s)" and p: "pick_id s = Inl f"
      then have "ids_in_range s" "numEntity s = numEntity r"
        by (auto simp: I_def dest: below_mem)
      then show False using pick_id_in_range(2)[of s f] p b by simp
    qed
    then show ?thesis by blast
  qed
  from CreateEntity_ids_in_range[OF i] b obtain entity r' where
    c: "CreateEntity r = Some (Inr (entity, r'))" "in_signatures entity r'" by auto
  show "\<exists>entity r'. CreateEntity r = Some (Inr (entity, r'))
      \<and> entity \<notin> set (activeEntityIds r) \<and> entity \<notin> set (entitiesToBeKilled r)
      \<and> entity \<in> set (activeEntityIds r') \<and> in_signatures entity r'"
    using c CreateEntity_Inr[OF c(1)] by auto
qed

theorem CreateEntity_terminates_witness:
  "run [Call_CreateEntity, Call_CreateEntity, Call_KillEntity 0, Call_ClearAllEntities,
        Call_Update, Call_CreateEntity, Call_CreateEntity, Call_KillEntity 1,
        Call_ClearAllEntities, Call_CreateEntity] Registry_new = Inr loop_and_retry
   \<and> numEntity loop_and_retry \<le> INT_MAX - 100
   \<and> freeIds loop_and_retry = [0, 1] \<and> activeEntityIds loop_and_retry = [0]
   \<and> entitiesToBeKilled loop_and_retry = [1]
   \<and> skip_active 0 (loop_and_retry\<lparr>freeIds := [1]\<rparr>)
       = Some (Inr (1, loop_and_retry\<lparr>freeIds := []\<rparr>))
   \<and> CreateEntity loop_and_retry
       = Some (Inr (2, mark_active 2 (loop_and_retry\<lparr>numEntity := 3, freeIds := [],
                  console := console loop_and_retry @ [retry_message 1]\<rparr>)))
   \<and> (\<forall>entityId. skip_active entityId loop_and_retry \<noteq> None)
   \<and> CreateEntity loop_and_retry \<noteq> None
   \<and> (\<exists>entity r'. CreateEntity loop_and_retry = Some (Inr (entity, r'))
          \<and> entity \<notin> set (activeEntityIds loop_and_retry)
          \<and> entity \<notin> set (entitiesToBeKilled loop_and_retry)
          \<and> entity \<in> set (activeEntityIds r') \<and> in_signatures entity r')"
proof -
  have a: "numEntity loop_and_retry \<le> INT_MAX - 100
   \<and> freeIds loop_and_retry = [0, 1] \<and> activeEntityIds loop_and_retry = [0]
   \<and> entitiesToBeKilled loop_and_retry = [1]"
    by (simp add: loop_and_retry_def INT_MAX_def)
  have b: "skip_active 0 (loop_and_retry\<lparr>freeIds := [1]\<rparr>)
       = Some (Inr (1, loop_and_retry\<lparr>freeIds := []\<rparr>))"
    by (simp add: skip_active.simps eval_defs loop_and_retry_def)
  have c: "CreateEntity loop_and_retry
       = Some (Inr (2, mark_active 2 (loop_and_retry\<lparr>numEntity := 3, freeIds := [],
                  console := console loop_and_retry @ [retry_message 1]\<rparr>)))"
    by (simp add: CreateEntity.simps skip_active.simps eval_defs loop_and_retry_def)
  show ?thesis
    using CreateEntity_terminates [OF run_loop_and_retry] a b c run_loop_and_retry by blast
qed

text \<open>
  C9. For an entity inside the signature table and a component type below
  \<open>MAX_COMPONENTS\<close>, \<open>RemoveComponent\<close> returns the registry with the one bit of the one
  signature cleared; the pools, the other signatures and bits, the active ids, the free
  queue, the staging sets and the systems are what they were.
\<close>

theorem RemoveComponent_frame:
  assumes "in_signatures entity r" "componentId < MAX_COMPONENTS"
  shows "\<exists>r'. RemoveComponent componentId entity r = Inr r'
     \<and> r' = r\<lparr>entityComponentSignatures := (entityComponentSignatures r)
            [nat entity := unset_bit componentId (entityComponentSignatures r ! nat entity)]\<rparr>
     \<and> (\<forall>k. bit (entityComponentSignatures r' ! nat entity) k
            \<longleftrightarrow> bit (entityComponentSignatures r ! nat entity) k \<and> k \<noteq> componentId)
     \<and> (\<forall>i. i \<noteq> nat entity
            \<longrightarrow> entityComponentSignatures r' ! i = entityComponentSignatures r ! i)
     \<and> length (entityComponentSignatures r') = length (entityComponentSignatures r)
     \<and> componentsPools r' = componentsPools r \<and> activeEntityIds r' = activeEntityIds r
     \<and> freeIds r' = freeIds r \<and> systems r' = systems r
     \<and> entitiesToBeAdded r' = entitiesToBeAdded r
     \<and> entitiesToBeKilled r' = entitiesToBeKilled r
     \<and> numEntity r' = numEntity r \<and> console r' = console r"
  using assms
  by (auto simp: RemoveComponent_def bitset_set_def bit_unset_bit_iff in_signatures_def)

theorem RemoveComponent_frame_witness:
  "in_signatures 0 in_render_system \<and> 0 < MAX_COMPONENTS
   \<and> HasComponent 0 0 in_render_system = Inr True
   \<and> RemoveComponent 0 0 in_render_system
       = Inr (in_render_system\<lparr>entityComponentSignatures := replicate 100 0\<rparr>)
   \<and> GetComponent 0 0 (in_render_system\<lparr>entityComponentSignatures := replicate 100 0\<rparr>) = Inr 7
   \<and> (\<exists>r'. RemoveComponent 0 0 in_render_system = Inr r'
        \<and> componentsPools r' = componentsPools in_render_system
        \<and> systems r' = systems in_render_system)"
proof -
  have a: "in_signatures 0 in_render_system" "0 < MAX_COMPONENTS"
    by (simp_all add: in_render_system_def in_signatures_def MAX_COMPONENTS_def)
  have b: "HasComponent 0 0 in_render_system = Inr True
   \<and> RemoveComponent 0 0 in_render_system
       = Inr (in_render_system\<lparr>entityComponentSignatures := replicate 100 0\<rparr>)
   \<and> GetComponent 0 0 (in_render_system\<lparr>entityComponentSignatures := replicate 100 0\<rparr>) = Inr 7"
    by (simp add: in_render_system_def eval_defs eval_component_defs GetComponent_def Pool_Get_def)
  show ?thesis using RemoveComponent_frame [OF a] a b by simp
qed

text \<open>
  C10. \<open>AddSystem\<close> for a type that is registered returns the registry as it was, console
  included, and \<open>GetSystem\<close> still gives the first instance; in every state that calls
  reach from a new registry, and after one more \<open>AddSystem\<close>, no type is registered twice.
\<close>

theorem AddSystem_keeps_first:
  "(HasSystem t r \<longrightarrow> AddSystem t newSystem r = r
       \<and> GetSystem t (AddSystem t newSystem r) = GetSystem t r)
   \<and> (run cs Registry_new = Inr r \<longrightarrow> distinct (map fst (systems (AddSystem t newSystem r))))"
proof (intro conjI impI)
  assume "run cs Registry_new = Inr r"
  then have "distinct (map fst (systems r))"
    using run_keys[of Registry_new cs r] by (simp add: Registry_new_def)
  then show "distinct (map fst (systems (AddSystem t newSystem r)))"
    by (rule AddSystem_keys)
qed (simp_all add: HasSystem_def AddSystem_def)

theorem AddSystem_keeps_first_witness:
  "run [Call_AddSystem ''RenderSystem'' RenderSystem, Call_CreateEntity,
        Call_AddComponent 0 0 7 0, Call_Update] Registry_new = Inr in_render_system
   \<and> HasSystem ''RenderSystem'' in_render_system
   \<and> AddSystem ''RenderSystem'' \<lparr>componentSignature = 2, entities = []\<rparr> in_render_system
        = in_render_system
   \<and> GetSystem ''RenderSystem''
        (AddSystem ''RenderSystem'' \<lparr>componentSignature = 2, entities = []\<rparr> in_render_system)
        = Inr \<lparr>componentSignature = 1, entities = [0]\<rparr>
   \<and> distinct (map fst (systems
        (AddSystem ''RenderSystem'' \<lparr>componentSignature = 2, entities = []\<rparr> in_render_system)))"
proof -
  have a: "HasSystem ''RenderSystem'' in_render_system
    \<and> GetSystem ''RenderSystem'' in_render_system = Inr \<lparr>componentSignature = 1, entities = [0]\<rparr>"
    by (simp add: HasSystem_def GetSystem_def in_render_system_def)
  note t = AddSystem_keeps_first [of "''RenderSystem''" in_render_system
        "\<lparr>componentSignature = 2, entities = []\<rparr>"
        "[Call_AddSystem ''RenderSystem'' RenderSystem, Call_CreateEntity,
          Call_AddComponent 0 0 7 0, Call_Update]"]
  from t a have b: "AddSystem ''RenderSystem'' \<lparr>componentSignature = 2, entities = []\<rparr> in_render_system
        = in_render_system
    \<and> GetSystem ''RenderSystem''
        (AddSystem ''RenderSystem'' \<lparr>componentSignature = 2, entities = []\<rparr> in_render_system)
        = Inr \<lparr>componentSignature = 1, entities = [0]\<rparr>"
    by simp
  from t run_in_render_system have c: "distinct (map fst (systems
        (AddSystem ''RenderSystem'' \<lparr>componentSignature = 2, entities = []\<rparr> in_render_system)))"
    by blast
  show ?thesis using a b c run_in_render_system by blast
qed

end

